theory Spec2Isabelle
  imports Main "HOL-Library.AList"
begin

section \<open>The WebSocket server of DenoUtils (src/WebSocketServer.ts)\<close>

text \<open>
  The class \<^verbatim>\<open>WebSocketServer\<close> keeps a registry \<^verbatim>\<open>#sessions\<close> from session
  identifiers to \<^verbatim>\<open>{socket, subprotocols}\<close>, a flag \<^verbatim>\<open>#shouldShutDown\<close> and the
  current listener \<^verbatim>\<open>#server\<close>. Every method is embedded as a function on that state;
  a thrown exception is the \<open>Inl\<close> branch of the result.
\<close>

subsection \<open>Exceptions\<close>

datatype error =
    TypeError            \<comment> \<open>reading a property of \<^verbatim>\<open>undefined\<close>\<close>
  | InvalidStateError    \<comment> \<open>\<^verbatim>\<open>WebSocket.send\<close> on a connecting socket\<close>
  | InvalidAccessError   \<comment> \<open>\<^verbatim>\<open>WebSocket.close\<close> with a code it does not accept\<close>
  | SyntaxError          \<comment> \<open>\<^verbatim>\<open>WebSocket.close\<close> with a reason that is too long\<close>
  | UpgradeError string  \<comment> \<open>whatever \<^verbatim>\<open>Deno.upgradeWebSocket\<close> throws\<close>

definition try_catch :: "(error + 'a) \<Rightarrow> (error \<Rightarrow> error + 'a) \<Rightarrow> error + 'a" where
  "try_catch body handle = (case body of Inl e \<Rightarrow> handle e | Inr v \<Rightarrow> Inr v)"

subsection \<open>Sockets\<close>

text \<open>
  \<^verbatim>\<open>WebSocket.readyState\<close> is one of the four constants of the platform interface
  (0 to 3). A socket is kept with the messages handed to \<^verbatim>\<open>send\<close> and the arguments
  of the calls of \<^verbatim>\<open>close\<close>, oldest first.
\<close>

datatype readyState = CONNECTING | OPEN | CLOSING | CLOSED

record socket =
  readyState :: readyState
  outbox :: "string list"
  closeCalls :: "(nat option \<times> string option) list"

text \<open>
  The platform's \<^verbatim>\<open>send\<close>: it throws on a connecting socket, queues the data on an open
  one and drops it on a closing or closed one.
\<close>

definition socket_send :: "socket \<Rightarrow> string \<Rightarrow> error + socket" where
  "socket_send sock message =
     (case readyState sock of
        CONNECTING \<Rightarrow> Inl InvalidStateError
      | OPEN \<Rightarrow> Inr (sock\<lparr>outbox := outbox sock @ [message]\<rparr>)
      | CLOSING \<Rightarrow> Inr sock
      | CLOSED \<Rightarrow> Inr sock)"

text \<open>
  The platform's \<^verbatim>\<open>close\<close>. A code, when given, has to be 1000 or from 3000 to 4999,
  and a reason (here the bytes of its encoding) at most 123 bytes long; otherwise the call
  throws and does nothing. A connecting or open socket starts closing, a closing or
  closed one stays as it is.
\<close>

definition socket_close :: "socket \<Rightarrow> nat option \<Rightarrow> string option \<Rightarrow> error + socket" where
  "socket_close sock code reason =
     (if (case code of None \<Rightarrow> False | Some c \<Rightarrow> \<not> (c = 1000 \<or> (3000 \<le> c \<and> c < 5000)))
      then Inl InvalidAccessError
      else if (case reason of None \<Rightarrow> False | Some r \<Rightarrow> 123 < length r)
      then Inl SyntaxError
      else (let sock' = sock\<lparr>closeCalls := closeCalls sock @ [(code, reason)]\<rparr>
            in case readyState sock of
                 CONNECTING \<Rightarrow> Inr (sock'\<lparr>readyState := CLOSING\<rparr>)
               | OPEN \<Rightarrow> Inr (sock'\<lparr>readyState := CLOSING\<rparr>)
               | CLOSING \<Rightarrow> Inr sock'
               | CLOSED \<Rightarrow> Inr sock'))"

subsection \<open>The session registry\<close>

record session =
  socket :: socket
  subprotocols :: "string list"

text \<open>
  \<^verbatim>\<open>IWebSocketSessions\<close> is a plain object used as a dictionary: its own properties are
  an association list in the order \<^verbatim>\<open>Object.keys\<close> lists them, with distinct keys.
  The object is created by the literal \<^verbatim>\<open>{}\<close>, so a read \<^verbatim>\<open>this.#sessions[key]\<close> of a key
  that is not an own property goes on to \<^verbatim>\<open>Object.prototype\<close> and yields the member of
  that name when there is one (a function, which is truthy and has no property
  \<^verbatim>\<open>socket\<close>), and \<^verbatim>\<open>undefined\<close> otherwise. Deno removes \<^verbatim>\<open>__proto__\<close> from
  \<^verbatim>\<open>Object.prototype\<close>; the other members are the ones of the language standard.
\<close>

type_synonym sessions = "(string \<times> session) list"

definition objectPrototypeKeys :: "string list" where
  "objectPrototypeKeys =
     [''constructor'', ''hasOwnProperty'', ''isPrototypeOf'', ''propertyIsEnumerable'',
      ''toLocaleString'', ''toString'', ''valueOf'', ''__defineGetter__'',
      ''__defineSetter__'', ''__lookupGetter__'', ''__lookupSetter__'']"

datatype property = Undefined | Own session | Inherited

definition get_prop :: "sessions \<Rightarrow> string \<Rightarrow> property" where
  "get_prop reg key =
     (case map_of reg key of
        Some s \<Rightarrow> Own s
      | None \<Rightarrow> if key \<in> set objectPrototypeKeys then Inherited else Undefined)"

definition object_keys :: "sessions \<Rightarrow> string list" where
  "object_keys reg = map fst reg"

text \<open>Reading \<^verbatim>\<open>xs[i]\<close> from an array: \<^verbatim>\<open>undefined\<close> (here \<open>None\<close>) out of range.\<close>

definition js_index :: "'a list \<Rightarrow> nat \<Rightarrow> 'a option" where
  "js_index xs i = (if i < length xs then Some (xs ! i) else None)"

subsection \<open>Sending\<close>

definition unreadyStates :: "readyState list" where
  "unreadyStates = [CONNECTING, CLOSING, CLOSED]"

text \<open>
  The filter \<^verbatim>\<open>TWebSocketServerSessionSubprotocols\<close> is an array of
  \<^verbatim>\<open>string | undefined\<close>: a \<open>string option list\<close>; the optional parameter itself is
  \<open>None\<close> when omitted. The loop of \<^verbatim>\<open>checkSubprotocols\<close> runs the index from 0 to
  the filter's length.
\<close>

function checkLoop :: "string option list \<Rightarrow> string list \<Rightarrow> nat \<Rightarrow> bool" where
  "checkLoop withSubprotocols sessionSubprotocols i =
     (if i < length withSubprotocols then
        (let matchValue = withSubprotocols ! i;
             sessionValue = js_index sessionSubprotocols i
         in if matchValue \<noteq> None \<and> matchValue \<noteq> sessionValue then False
            else checkLoop withSubprotocols sessionSubprotocols (Suc i))
      else True)"
  by pat_completeness auto
termination
  by (relation "measure (\<lambda>(ws, ps, i). length ws - i)") auto

declare checkLoop.simps [simp del]

definition checkSubprotocols :: "string option list option \<Rightarrow> session \<Rightarrow> bool" where
  "checkSubprotocols withSubprotocols session =
     (case withSubprotocols of
        None \<Rightarrow> True
      | Some ws \<Rightarrow> checkLoop ws (subprotocols session) 0)"

text \<open>
  \<^verbatim>\<open>sendMessage\<close>. The sockets' state is kept with the registry entries, so the
  registry after the call is part of the result. When the identifier names a member of
  \<^verbatim>\<open>Object.prototype\<close>, \<^verbatim>\<open>session\<close> is truthy and \<^verbatim>\<open>session.socket\<close> is
  \<^verbatim>\<open>undefined\<close>, so reading \<^verbatim>\<open>readyState\<close> from it throws.
\<close>

definition sendMessage ::
  "string \<Rightarrow> string \<Rightarrow> string option list option \<Rightarrow> sessions \<Rightarrow> error + (bool \<times> sessions)" where
  "sendMessage message toSessionId withSubprotocols reg =
     (case get_prop reg toSessionId of
        Undefined \<Rightarrow> Inr (False, reg)
      | Inherited \<Rightarrow> Inl TypeError
      | Own session \<Rightarrow>
          if readyState (socket session) \<notin> set unreadyStates
             \<and> checkSubprotocols withSubprotocols session
          then (case socket_send (socket session) message of
                  Inl e \<Rightarrow> Inl e
                | Inr sock \<Rightarrow>
                    Inr (True, AList.update toSessionId (session\<lparr>socket := sock\<rparr>) reg))
          else Inr (False, reg))"

text \<open>
  Whether \<^verbatim>\<open>sendMessage(message, k, sp)\<close> returns \<^verbatim>\<open>true\<close> in a registry, and
  the entry it leaves behind when it does: the message is queued on the socket.
\<close>

definition sends :: "string \<Rightarrow> string option list option \<Rightarrow> sessions \<Rightarrow> string \<Rightarrow> bool" where
  "sends message sp reg k =
     (case sendMessage message k sp reg of Inl e \<Rightarrow> False | Inr (ok, reg') \<Rightarrow> ok)"

definition delivered :: "string \<Rightarrow> session \<Rightarrow> session" where
  "delivered message session =
     session\<lparr>socket := (socket session)\<lparr>outbox := outbox (socket session) @ [message]\<rparr>\<rparr>"

text \<open>
  The loop shared by \<^verbatim>\<open>sendMessageToAll\<close> and \<^verbatim>\<open>sendMessageToGroup\<close>: the
  identifiers still to visit, the counter \<^verbatim>\<open>sent\<close> and the registry.
\<close>

fun sendLoop ::
  "string \<Rightarrow> string option list option \<Rightarrow> string list \<Rightarrow> nat \<Rightarrow> sessions \<Rightarrow> error + (nat \<times> sessions)" where
  "sendLoop message sp [] sent reg = Inr (sent, reg)"
| "sendLoop message sp (sessionId # rest) sent reg =
     (case sendMessage message sessionId sp reg of
        Inl e \<Rightarrow> Inl e
      | Inr (ok, reg') \<Rightarrow> sendLoop message sp rest (if ok then Suc sent else sent) reg')"

definition sendMessageToAll ::
  "string \<Rightarrow> string option list option \<Rightarrow> sessions \<Rightarrow> error + (nat \<times> sessions)" where
  "sendMessageToAll message sp reg = sendLoop message sp (object_keys reg) 0 reg"

fun othersLoop ::
  "string \<Rightarrow> string \<Rightarrow> string option list option \<Rightarrow> string list \<Rightarrow> nat \<Rightarrow> sessions
     \<Rightarrow> error + (nat \<times> sessions)" where
  "othersLoop message mySessionId sp [] sent reg = Inr (sent, reg)"
| "othersLoop message mySessionId sp (sessionId # rest) sent reg =
     (if sessionId \<noteq> mySessionId then
        (case sendMessage message sessionId sp reg of
           Inl e \<Rightarrow> Inl e
         | Inr (ok, reg') \<Rightarrow>
             othersLoop message mySessionId sp rest (if ok then Suc sent else sent) reg')
      else othersLoop message mySessionId sp rest sent reg)"

definition sendMessageToOthers ::
  "string \<Rightarrow> string \<Rightarrow> string option list option \<Rightarrow> sessions \<Rightarrow> error + (nat \<times> sessions)" where
  "sendMessageToOthers message mySessionId sp reg =
     othersLoop message mySessionId sp (object_keys reg) 0 reg"

definition sendMessageToGroup ::
  "string \<Rightarrow> string list \<Rightarrow> string option list option \<Rightarrow> sessions \<Rightarrow> error + (nat \<times> sessions)" where
  "sendMessageToGroup message toSessionIds sp reg = sendLoop message sp toSessionIds 0 reg"

text \<open>
  \<^verbatim>\<open>disconnectSession\<close> reads \<^verbatim>\<open>session.socket\<close> with no test of \<^verbatim>\<open>session\<close>
  before it: the read throws when \<^verbatim>\<open>session\<close> is \<^verbatim>\<open>undefined\<close>, and yields
  \<^verbatim>\<open>undefined\<close> (falsy) on a member of \<^verbatim>\<open>Object.prototype\<close>. When
  \<^verbatim>\<open>close\<close> throws, the entry stays.
\<close>

definition disconnectSession ::
  "string \<Rightarrow> nat option \<Rightarrow> string option \<Rightarrow> sessions \<Rightarrow> error + (bool \<times> sessions)" where
  "disconnectSession sessionId code reason reg =
     (case get_prop reg sessionId of
        Undefined \<Rightarrow> Inl TypeError
      | Inherited \<Rightarrow> Inr (False, reg)
      | Own session \<Rightarrow>
          (case socket_close (socket session) code reason of
             Inl e \<Rightarrow> Inl e
           | Inr sock \<Rightarrow>
               (let reg1 = AList.update sessionId (session\<lparr>socket := sock\<rparr>) reg
                in Inr (True, AList.delete sessionId reg1))))"

subsection \<open>The server: options, events, state\<close>

record options =
  name :: string
  port :: nat
  hostname :: string
  keepAlive :: bool

datatype EWebSocketServerState =
  ServerStarted | ServerShutdown | ClientConnected | ClientDisconnected | Error

text \<open>
  A call \<^verbatim>\<open>onServerEvent(state, value, session)\<close>; the session is the pair of
  \<^verbatim>\<open>sessionId\<close> and \<^verbatim>\<open>subprotocols\<close>.
\<close>

datatype server_event =
  ServerEvent EWebSocketServerState "string option" "(string \<times> string list) option"

text \<open>
  What the callbacks installed on one upgraded socket close over: the socket, the
  variable \<^verbatim>\<open>sessionId\<close> (initially empty) and the constant \<^verbatim>\<open>subprotocols\<close>.
\<close>

record connection =
  conn_socket :: socket
  conn_sessionId :: string
  conn_subprotocols :: "string list"

text \<open>
  A continuation that waits at an \<^verbatim>\<open>await\<close> of the lifecycle methods:
  \<^item> \<open>ResumeStart\<close>: a call of \<^verbatim>\<open>restart\<close> whose \<^verbatim>\<open>#start\<close> awaits the shutdown of
    the old listener; it goes on with the \<^verbatim>\<open>try\<close> block of \<^verbatim>\<open>#start\<close> and then with
    the rest of \<^verbatim>\<open>restart\<close>;
  \<^item> \<open>ResumeRestart\<close>: a call of \<^verbatim>\<open>restart\<close> whose \<^verbatim>\<open>#start\<close> had no listener to
    wait for; it goes on with the rest of \<^verbatim>\<open>restart\<close>;
  \<^item> \<open>ResumeShutdown\<close>: a call of \<^verbatim>\<open>shutdown\<close>; it goes on with its last line.
\<close>

datatype task = ResumeStart | ResumeRestart | ResumeShutdown

text \<open>
  The fields of the class, with what belongs to its environment: the number of calls of
  \<^verbatim>\<open>Deno.serve\<close> so far (a listener is named by the number of the call that made it),
  the listeners that have not finished, the calls of \<^verbatim>\<open>shutdown()\<close> on listeners,
  the continuations that wait, and the calls of \<^verbatim>\<open>onServerEvent\<close> and of
  \<^verbatim>\<open>onMessageReceived\<close>, oldest first.
\<close>

record ws_server =
  server :: "nat option"
  sessions :: sessions
  shouldShutDown :: bool
  connections :: "connection list"
  served :: nat
  listening :: "nat list"
  stopped :: "nat list"
  pending :: "task list"
  events :: "server_event list"
  received :: "(string \<times> string \<times> string list) list"

definition initial :: ws_server where
  "initial = \<lparr>server = None, sessions = [], shouldShutDown = False, connections = [],
              served = 0, listening = [], stopped = [], pending = [], events = [],
              received = []\<rparr>"

definition onServerEvent :: "server_event \<Rightarrow> ws_server \<Rightarrow> ws_server" where
  "onServerEvent ev s = s\<lparr>events := events s @ [ev]\<rparr>"

subsection \<open>Lifecycle\<close>

text \<open>
  \<^verbatim>\<open>Deno.serve\<close> belongs to the platform: \<open>serve n\<close> is what its call number \<open>n\<close>
  does, it returns a listener or it throws (the string is the rendering of the
  exception). \<open>start_serve\<close> is the \<^verbatim>\<open>try\<close> block of \<^verbatim>\<open>#start\<close>, which also gives the
  new listener the callback for its completion.
\<close>

datatype serve_outcome = Listening | ServeThrows string

type_synonym serve = "nat \<Rightarrow> serve_outcome"

definition start_serve :: "serve \<Rightarrow> ws_server \<Rightarrow> ws_server" where
  "start_serve serve s =
     (let n = served s;
          s1 = s\<lparr>served := Suc n\<rparr>
      in case serve n of
           Listening \<Rightarrow> s1\<lparr>server := Some n, listening := listening s1 @ [n]\<rparr>
         | ServeThrows e \<Rightarrow> onServerEvent (ServerEvent Error (Some e) None) s1)"

text \<open>
  The methods are asynchronous. \<^verbatim>\<open>restart\<close> clears the flag and enters \<^verbatim>\<open>#start\<close>,
  which calls \<^verbatim>\<open>shutdown()\<close> on the current listener and waits. A listener that was
  still listening finishes by that, and the callback given to \<^verbatim>\<open>finished.then\<close> runs
  before the waiting \<^verbatim>\<open>#start\<close> goes on: \<open>onFinished\<close>, which may call \<^verbatim>\<open>restart\<close>
  again. \<open>restart_call\<close> is a call of \<^verbatim>\<open>restart\<close> up to the point where it waits,
  with all that happens by then; \<open>listener_shutdown\<close> is the platform's
  \<^verbatim>\<open>shutdown()\<close> of a listener with the callback it sets off.
\<close>

function restart_call :: "options \<Rightarrow> serve \<Rightarrow> ws_server \<Rightarrow> ws_server"
  and listener_shutdown :: "options \<Rightarrow> serve \<Rightarrow> nat \<Rightarrow> ws_server \<Rightarrow> ws_server"
  and onFinished :: "options \<Rightarrow> serve \<Rightarrow> ws_server \<Rightarrow> ws_server" where
  "restart_call opts serve s =
     (case server s of
        None \<Rightarrow>
          (start_serve serve (s\<lparr>shouldShutDown := False\<rparr>))\<lparr>pending := pending s @ [ResumeRestart]\<rparr>
      | Some l \<Rightarrow>
          listener_shutdown opts serve l
            (s\<lparr>shouldShutDown := False, pending := pending s @ [ResumeStart]\<rparr>))"
| "listener_shutdown opts serve l s =
     (if l \<in> set (listening s)
      then onFinished opts serve
             (s\<lparr>stopped := stopped s @ [l], listening := removeAll l (listening s)\<rparr>)
      else s\<lparr>stopped := stopped s @ [l]\<rparr>)"
| "onFinished opts serve s =
     (if \<not> shouldShutDown s then
        (if keepAlive opts
         then restart_call opts serve
                (onServerEvent (ServerEvent Error (Some ''Server finished unexpectedly'') None) s)
         else onServerEvent (ServerEvent Error (Some ''Server finished unexpectedly'') None) s)
      else s)"
  by pat_completeness auto
termination
  apply (relation "measure (\<lambda>x. case x of
          Inl (opts, serve, s) \<Rightarrow> 3 * length (listening s) + 1
        | Inr (Inl (opts, serve, l, s)) \<Rightarrow> 3 * length (listening s)
        | Inr (Inr (opts, serve, s)) \<Rightarrow> 3 * length (listening s) + 2)")
    apply (auto simp add: onServerEvent_def)
  subgoal for l s
    using length_removeAll_less [of l "listening s"] by arith
  done

declare restart_call.simps [simp del] listener_shutdown.simps [simp del]
  onFinished.simps [simp del]

text \<open>
  The continuations run in the order in which they began to wait; none of them makes
  another wait.
\<close>

fun run_task :: "serve \<Rightarrow> task \<Rightarrow> ws_server \<Rightarrow> ws_server" where
  "run_task serve ResumeStart s =
     onServerEvent (ServerEvent ServerStarted None None) (start_serve serve s)"
| "run_task serve ResumeRestart s = onServerEvent (ServerEvent ServerStarted None None) s"
| "run_task serve ResumeShutdown s = onServerEvent (ServerEvent ServerShutdown None None) s"

fun run_tasks :: "serve \<Rightarrow> task list \<Rightarrow> ws_server \<Rightarrow> ws_server" where
  "run_tasks serve [] s = s"
| "run_tasks serve (t # ts) s = run_tasks serve ts (run_task serve t s)"

definition drain :: "serve \<Rightarrow> ws_server \<Rightarrow> ws_server" where
  "drain serve s = run_tasks serve (pending s) (s\<lparr>pending := []\<rparr>)"

text \<open>
  A call of \<^verbatim>\<open>restart\<close> or of \<^verbatim>\<open>shutdown\<close> with all it sets off, and the completion
  of a listener that the class did not ask for. The owner makes no further call of the
  two while one of them waits.
\<close>

definition restart :: "options \<Rightarrow> serve \<Rightarrow> ws_server \<Rightarrow> ws_server" where
  "restart opts serve s = drain serve (restart_call opts serve s)"

definition shutdown_call :: "options \<Rightarrow> serve \<Rightarrow> ws_server \<Rightarrow> ws_server" where
  "shutdown_call opts serve s =
     (let s1 = s\<lparr>shouldShutDown := True, pending := pending s @ [ResumeShutdown]\<rparr>
      in case server s1 of
           None \<Rightarrow> s1
         | Some l \<Rightarrow> listener_shutdown opts serve l s1)"

definition shutdown :: "options \<Rightarrow> serve \<Rightarrow> ws_server \<Rightarrow> ws_server" where
  "shutdown opts serve s = drain serve (shutdown_call opts serve s)"

definition listener_finished :: "options \<Rightarrow> serve \<Rightarrow> nat \<Rightarrow> ws_server \<Rightarrow> ws_server" where
  "listener_finished opts serve l s =
     (if l \<in> set (listening s)
      then drain serve (onFinished opts serve (s\<lparr>listening := removeAll l (listening s)\<rparr>))
      else s)"

subsection \<open>The request handler\<close>

text \<open>
  A header value read by \<^verbatim>\<open>headers.get\<close> is a byte string (every code unit is below
  256), or \<^verbatim>\<open>null\<close>. \<^verbatim>\<open>split(',')\<close> cuts at every comma and keeps empty pieces;
  \<^verbatim>\<open>trim()\<close> strips white space and line terminators from both ends, of which the
  bytes are tab, line feed, vertical tab, form feed, carriage return, space and the
  no-break space.
\<close>

record request =
  upgrade :: "string option"
  sec_websocket_protocol :: "string option"

text \<open>
  A response: its status and its \<^verbatim>\<open>sec-websocket-protocol\<close> header, which
  \<^verbatim>\<open>Deno.upgradeWebSocket\<close> sets to the protocol it is given.
\<close>

datatype response = Response nat "string option"

fun js_split :: "char \<Rightarrow> string \<Rightarrow> string list" where
  "js_split sep [] = [[]]"
| "js_split sep (c # cs) =
     (if c = sep then [] # js_split sep cs
      else (case js_split sep cs of [] \<Rightarrow> [[c]] | t # ts \<Rightarrow> (c # t) # ts))"

text \<open>\<^verbatim>\<open>join\<close>, the inverse of \<^verbatim>\<open>split\<close>: it says what the pieces of a split are.\<close>

fun js_join :: "char \<Rightarrow> string list \<Rightarrow> string" where
  "js_join sep [] = []"
| "js_join sep [p] = p"
| "js_join sep (p # q # ps) = p @ sep # js_join sep (q # ps)"

definition js_whitespace :: "char \<Rightarrow> bool" where
  "js_whitespace c \<longleftrightarrow>
     c \<in> set [CHR 0x09, CHR 0x0A, CHR 0x0B, CHR 0x0C, CHR 0x0D, CHR 0x20, CHR 0xA0]"

definition js_trim :: "string \<Rightarrow> string" where
  "js_trim s = rev (dropWhile js_whitespace (rev (dropWhile js_whitespace s)))"

text \<open>Lines 42 to 46 of the handler: the constant \<^verbatim>\<open>subprotocols\<close>.\<close>

definition requested_subprotocols :: "request \<Rightarrow> string list" where
  "requested_subprotocols req =
     (let secWebsocketProtocol = (case sec_websocket_protocol req of None \<Rightarrow> [] | Some v \<Rightarrow> v)
      in filter (\<lambda>it. length it \<noteq> 0)
           (map js_trim (js_split (CHR '','') secWebsocketProtocol)))"

text \<open>
  \<^verbatim>\<open>Deno.upgradeWebSocket(req, {protocol})\<close> belongs to the platform: it is a parameter
  that returns the socket and the response, or throws.
\<close>

type_synonym upgradeWebSocket = "request \<Rightarrow> string option \<Rightarrow> error + (socket \<times> response)"

definition handler ::
  "upgradeWebSocket \<Rightarrow> request \<Rightarrow> ws_server \<Rightarrow> error + (response \<times> ws_server)" where
  "handler upgradeWebSocket req s =
     (let subprotocols = requested_subprotocols req
      in if upgrade req \<noteq> Some ''websocket'' then Inr (Response 501 None, s)
         else try_catch
                (case upgradeWebSocket req (js_index subprotocols 0) of
                   Inl e \<Rightarrow> Inl e
                 | Inr (sock, response) \<Rightarrow>
                     Inr (response,
                          s\<lparr>connections := connections s @
                              [\<lparr>conn_socket = sock, conn_sessionId = [],
                                conn_subprotocols = subprotocols\<rparr>]\<rparr>))
                (\<lambda>e. Inr (Response 500 None, s)))"

text \<open>
  The four callbacks of connection \<open>c\<close>. \<^verbatim>\<open>onopen\<close> takes the string that
  \<^verbatim>\<open>crypto.randomUUID()\<close> returns in this call; the socket is open when the event is
  delivered, and from here on its state is the one kept in the registry entry.
\<close>

definition socket_onopen :: "nat \<Rightarrow> string \<Rightarrow> ws_server \<Rightarrow> ws_server" where
  "socket_onopen c uuid s =
     (let conn = connections s ! c;
          sessionId = uuid;
          sock = (conn_socket conn)\<lparr>readyState := OPEN\<rparr>;
          s1 = s\<lparr>connections := (connections s)[c := conn\<lparr>conn_sessionId := sessionId\<rparr>],
                 sessions := AList.update sessionId
                               \<lparr>socket = sock, subprotocols = conn_subprotocols conn\<rparr>
                               (sessions s)\<rparr>
      in onServerEvent
           (ServerEvent ClientConnected None (Some (sessionId, conn_subprotocols conn))) s1)"

definition socket_onclose :: "nat \<Rightarrow> ws_server \<Rightarrow> ws_server" where
  "socket_onclose c s =
     (let conn = connections s ! c;
          s1 = s\<lparr>sessions := AList.delete (conn_sessionId conn) (sessions s)\<rparr>
      in onServerEvent
           (ServerEvent ClientDisconnected None
              (Some (conn_sessionId conn, conn_subprotocols conn))) s1)"

definition socket_onerror :: "nat \<Rightarrow> string \<Rightarrow> ws_server \<Rightarrow> ws_server" where
  "socket_onerror c type s =
     (let conn = connections s ! c
      in onServerEvent
           (ServerEvent Error (Some type) (Some (conn_sessionId conn, conn_subprotocols conn))) s)"

definition socket_onmessage :: "nat \<Rightarrow> string \<Rightarrow> ws_server \<Rightarrow> ws_server" where
  "socket_onmessage c data s =
     (let conn = connections s ! c
      in s\<lparr>received := received s @ [(data, conn_sessionId conn, conn_subprotocols conn)]\<rparr>)"

subsection \<open>Runs of the server\<close>

text \<open>
  The constructor stores the options and calls \<^verbatim>\<open>#start\<close>, which has no listener to
  wait for.
\<close>

definition new_server :: "serve \<Rightarrow> ws_server" where
  "new_server serve = start_serve serve initial"

text \<open>
  What can happen to a server, one step at a time: a request arrives, an event of an
  existing connection is delivered, a listener finishes on its own, or the owner calls
  \<^verbatim>\<open>restart\<close>, \<^verbatim>\<open>shutdown\<close>, \<^verbatim>\<open>sendMessage\<close>, \<^verbatim>\<open>sendMessageToAll\<close>,
  \<^verbatim>\<open>sendMessageToOthers\<close> or \<^verbatim>\<open>disconnectSession\<close>. A call of \<^verbatim>\<open>sendMessage\<close> or
  \<^verbatim>\<open>disconnectSession\<close> that throws does so before it changes anything.
\<close>

datatype action =
    Request upgradeWebSocket request
  | SocketOpen nat string
  | SocketClose nat
  | SocketError nat string
  | SocketMessage nat string
  | ListenerFinished nat
  | Restart
  | Shutdown
  | SendMessage string string "string option list option"
  | SendMessageToAll string "string option list option"
  | SendMessageToOthers string string "string option list option"
  | DisconnectSession string "nat option" "string option"

fun step :: "options \<Rightarrow> serve \<Rightarrow> action \<Rightarrow> ws_server \<Rightarrow> ws_server" where
  "step opts serve (Request up req) s =
     (case handler up req s of Inl e \<Rightarrow> s | Inr (r, s') \<Rightarrow> s')"
| "step opts serve (SocketOpen c uuid) s =
     (if c < length (connections s) then socket_onopen c uuid s else s)"
| "step opts serve (SocketClose c) s =
     (if c < length (connections s) then socket_onclose c s else s)"
| "step opts serve (SocketError c type) s =
     (if c < length (connections s) then socket_onerror c type s else s)"
| "step opts serve (SocketMessage c data) s =
     (if c < length (connections s) then socket_onmessage c data s else s)"
| "step opts serve (ListenerFinished l) s = listener_finished opts serve l s"
| "step opts serve Restart s = restart opts serve s"
| "step opts serve Shutdown s = shutdown opts serve s"
| "step opts serve (SendMessage message toSessionId sp) s =
     (case sendMessage message toSessionId sp (sessions s) of
        Inl e \<Rightarrow> s | Inr (ok, reg) \<Rightarrow> s\<lparr>sessions := reg\<rparr>)"
| "step opts serve (SendMessageToAll message sp) s =
     (case sendMessageToAll message sp (sessions s) of
        Inl e \<Rightarrow> s | Inr (n, reg) \<Rightarrow> s\<lparr>sessions := reg\<rparr>)"
| "step opts serve (SendMessageToOthers message mySessionId sp) s =
     (case sendMessageToOthers message mySessionId sp (sessions s) of
        Inl e \<Rightarrow> s | Inr (n, reg) \<Rightarrow> s\<lparr>sessions := reg\<rparr>)"
| "step opts serve (DisconnectSession sessionId code reason) s =
     (case disconnectSession sessionId code reason (sessions s) of
        Inl e \<Rightarrow> s | Inr (ok, reg) \<Rightarrow> s\<lparr>sessions := reg\<rparr>)"

fun run :: "options \<Rightarrow> serve \<Rightarrow> action list \<Rightarrow> ws_server \<Rightarrow> ws_server" where
  "run opts serve [] s = s"
| "run opts serve (a # as) s = run opts serve as (step opts serve a s)"

text \<open>
  The identifiers handed out so far, read off the \<^verbatim>\<open>ClientConnected\<close> events; the
  string \<^verbatim>\<open>crypto.randomUUID()\<close> returns in one step, if the step calls it; and the
  strings it returns along a run.
\<close>

fun issued :: "server_event list \<Rightarrow> string list" where
  "issued [] = []"
| "issued (ServerEvent ClientConnected v (Some (sessionId, ps)) # es) = sessionId # issued es"
| "issued (ev # es) = issued es"

fun minted :: "action \<Rightarrow> ws_server \<Rightarrow> string list" where
  "minted (SocketOpen c uuid) s = (if c < length (connections s) then [uuid] else [])"
| "minted a s = []"

fun drawn :: "options \<Rightarrow> serve \<Rightarrow> action list \<Rightarrow> ws_server \<Rightarrow> string list" where
  "drawn opts serve [] s = []"
| "drawn opts serve (a # as) s = minted a s @ drawn opts serve as (step opts serve a s)"


text \<open>
  An upgrade that succeeds, for the examples: a connecting socket and status 101 with the
  protocol that was offered.
\<close>

definition accept_upgrade :: upgradeWebSocket where
  "accept_upgrade req protocol =
     Inr (\<lparr>readyState = CONNECTING, outbox = [], closeCalls = []\<rparr>, Response 101 protocol)"

text \<open>An upgrade that fails, for the examples.\<close>

definition reject_upgrade :: upgradeWebSocket where
  "reject_upgrade req protocol = Inl (UpgradeError ''Invalid Header'')"

section \<open>The sub-protocol filter\<close>

lemma all_from_split:
  "(\<forall>j. i \<le> j \<and> j < n \<longrightarrow> P j) \<longleftrightarrow> (i < n \<longrightarrow> P i) \<and> (\<forall>j. Suc i \<le> j \<and> j < n \<longrightarrow> P j)"
proof -
  have "i \<le> j \<longleftrightarrow> j = i \<or> Suc i \<le> j" for j by arith
  then show ?thesis by auto
qed

lemma checkLoop_iff:
  "checkLoop ws ps i \<longleftrightarrow>
     (\<forall>j. i \<le> j \<and> j < length ws \<longrightarrow> ws ! j = None \<or> ws ! j = js_index ps j)"
proof (induction ws ps i rule: checkLoop.induct)
  case (1 ws ps i)
  show ?case
  proof (cases "i < length ws")
    case False
    then have "checkLoop ws ps i" by (subst checkLoop.simps) simp
    with False show ?thesis by auto
  next
    case inr: True
    show ?thesis
    proof (cases "ws ! i = None \<or> ws ! i = js_index ps i")
      case False
      with inr have "\<not> checkLoop ws ps i" by (subst checkLoop.simps) simp
      with inr False show ?thesis by (subst all_from_split) simp
    next
      case True
      with inr have step: "checkLoop ws ps i = checkLoop ws ps (Suc i)"
        by (subst checkLoop.simps) (auto simp add: Let_def)
      from True inr have ih:
        "checkLoop ws ps (Suc i) \<longleftrightarrow>
           (\<forall>j. Suc i \<le> j \<and> j < length ws \<longrightarrow> ws ! j = None \<or> ws ! j = js_index ps j)"
        by (intro "1.IH") auto
      from step ih True show ?thesis by (subst all_from_split) simp
    qed
  qed
qed

lemma checkSubprotocols_Some_iff:
  "checkSubprotocols (Some ws) s \<longleftrightarrow>
     (\<forall>j < length ws. ws ! j = None \<or> ws ! j = js_index (subprotocols s) j)"
  by (simp add: checkSubprotocols_def checkLoop_iff)

text \<open>
  C2. When the filter is not longer than the session's sub-protocol list, the match of
  \<^verbatim>\<open>sendMessage\<close> succeeds exactly when every defined position of the filter equals
  the same position of the list; an omitted filter matches every session; and the filter
  \<open>[A, undefined]\<close> matches sessions negotiated as \<open>[A, B]\<close> and \<open>[A, C]\<close> but not
  \<open>[X, B]\<close> (for \<open>X\<close> different from \<open>A\<close>).
\<close>

theorem checkSubprotocols_positional:
  assumes "length f \<le> length (subprotocols s)" and "A \<noteq> X"
  shows "(checkSubprotocols (Some f) s \<longleftrightarrow>
            (\<forall>i < length f. \<forall>m. f ! i = Some m \<longrightarrow> m = subprotocols s ! i))
         \<and> checkSubprotocols None s
         \<and> checkSubprotocols (Some [Some A, None]) \<lparr>socket = k, subprotocols = [A, B]\<rparr>
         \<and> checkSubprotocols (Some [Some A, None]) \<lparr>socket = k, subprotocols = [A, C]\<rparr>
         \<and> \<not> checkSubprotocols (Some [Some A, None]) \<lparr>socket = k, subprotocols = [X, B]\<rparr>"
proof (intro conjI)
  have pos: "(f ! i = None \<or> f ! i = js_index (subprotocols s) i) \<longleftrightarrow>
             (\<forall>m. f ! i = Some m \<longrightarrow> m = subprotocols s ! i)" if "i < length f" for i
  proof -
    from that assms(1) have "js_index (subprotocols s) i = Some (subprotocols s ! i)"
      by (simp add: js_index_def)
    then show ?thesis by (cases "f ! i") auto
  qed
  show "checkSubprotocols (Some f) s \<longleftrightarrow>
          (\<forall>i < length f. \<forall>m. f ! i = Some m \<longrightarrow> m = subprotocols s ! i)"
    unfolding checkSubprotocols_Some_iff using pos by blast
  show "checkSubprotocols None s"
    by (simp add: checkSubprotocols_def)
  have two: "(\<forall>j<Suc (Suc 0). Q j) \<longleftrightarrow> Q 0 \<and> Q (Suc 0)" for Q :: "nat \<Rightarrow> bool"
    by (auto simp add: less_Suc_eq)
  show "checkSubprotocols (Some [Some A, None]) \<lparr>socket = k, subprotocols = [A, B]\<rparr>"
    by (simp add: checkSubprotocols_Some_iff two js_index_def)
  show "checkSubprotocols (Some [Some A, None]) \<lparr>socket = k, subprotocols = [A, C]\<rparr>"
    by (simp add: checkSubprotocols_Some_iff two js_index_def)
  from assms(2)
  show "\<not> checkSubprotocols (Some [Some A, None]) \<lparr>socket = k, subprotocols = [X, B]\<rparr>"
    by (simp add: checkSubprotocols_Some_iff two js_index_def)
qed

theorem checkSubprotocols_positional_witness:
  "length [Some ''chat'', None] \<le> length (subprotocols \<lparr>socket = \<lparr>readyState = OPEN, outbox = [], closeCalls = []\<rparr>, subprotocols = [''chat'', ''v2'']\<rparr>)
   \<and> ''chat'' \<noteq> ''mqtt''
   \<and> checkSubprotocols (Some [Some ''chat'', None])
        \<lparr>socket = \<lparr>readyState = OPEN, outbox = [], closeCalls = []\<rparr>, subprotocols = [''chat'', ''v2'']\<rparr>
   \<and> checkSubprotocols (Some [Some ''chat'', None])
        \<lparr>socket = \<lparr>readyState = OPEN, outbox = [], closeCalls = []\<rparr>, subprotocols = [''chat'', ''v3'']\<rparr>
   \<and> \<not> checkSubprotocols (Some [Some ''chat'', None])
        \<lparr>socket = \<lparr>readyState = OPEN, outbox = [], closeCalls = []\<rparr>, subprotocols = [''mqtt'', ''v2'']\<rparr>"
proof -
  let ?k = "\<lparr>readyState = OPEN, outbox = [], closeCalls = []\<rparr>"
  let ?s = "\<lparr>socket = ?k, subprotocols = [''chat'', ''v2'']\<rparr>"
  have h1: "length [Some ''chat'', None] \<le> length (subprotocols ?s)" by simp
  have h2: "''chat'' \<noteq> ''mqtt''" by simp
  from checkSubprotocols_positional [OF h1 h2, of ?k "''v2''" "''v3''"] h1 h2
  show ?thesis by blast
qed

text \<open>
  C10. When the filter is longer than the session's sub-protocol list, the match is still
  a total function of the two: a position at or beyond the list's length is compared
  with \<^verbatim>\<open>undefined\<close>, so the match succeeds exactly when the positions inside the list
  match and every position beyond it is \<^verbatim>\<open>undefined\<close>.
\<close>

theorem checkSubprotocols_longer_filter:
  assumes "length (subprotocols s) < length f"
  shows "(\<forall>i. length (subprotocols s) \<le> i \<longrightarrow> js_index (subprotocols s) i = None)
         \<and> (checkSubprotocols (Some f) s \<longleftrightarrow>
              (\<forall>i < length (subprotocols s). f ! i = None \<or> f ! i = Some (subprotocols s ! i))
              \<and> (\<forall>i. length (subprotocols s) \<le> i \<and> i < length f \<longrightarrow> f ! i = None))"
proof (intro conjI)
  let ?p = "subprotocols s"
  show "\<forall>i. length ?p \<le> i \<longrightarrow> js_index ?p i = None"
    by (simp add: js_index_def)
  have inside: "js_index ?p i = Some (?p ! i)" if "i < length ?p" for i
    using that by (simp add: js_index_def)
  have beyond: "js_index ?p i = None" if "length ?p \<le> i" for i
    using that by (simp add: js_index_def)
  show "checkSubprotocols (Some f) s \<longleftrightarrow>
          (\<forall>i < length ?p. f ! i = None \<or> f ! i = Some (?p ! i))
          \<and> (\<forall>i. length ?p \<le> i \<and> i < length f \<longrightarrow> f ! i = None)"
    (is "?lhs \<longleftrightarrow> ?in \<and> ?out")
  proof
    assume l: ?lhs
    have ?in
    proof (intro allI impI)
      fix i assume i: "i < length ?p"
      with assms have "i < length f" by simp
      with l have "f ! i = None \<or> f ! i = js_index ?p i"
        by (simp add: checkSubprotocols_Some_iff)
      with inside [OF i] show "f ! i = None \<or> f ! i = Some (?p ! i)" by simp
    qed
    moreover have ?out
    proof (intro allI impI)
      fix i assume i: "length ?p \<le> i \<and> i < length f"
      with l have "f ! i = None \<or> f ! i = js_index ?p i"
        by (simp add: checkSubprotocols_Some_iff)
      with beyond i show "f ! i = None" by auto
    qed
    ultimately show "?in \<and> ?out" ..
  next
    assume r: "?in \<and> ?out"
    have "f ! j = None \<or> f ! j = js_index ?p j" if "j < length f" for j
    proof (cases "j < length ?p")
      case True
      with r inside show ?thesis by auto
    next
      case False
      with r that show ?thesis by auto
    qed
    then show ?lhs by (simp add: checkSubprotocols_Some_iff)
  qed
qed

theorem checkSubprotocols_longer_filter_witness:
  "length (subprotocols \<lparr>socket = \<lparr>readyState = OPEN, outbox = [], closeCalls = []\<rparr>, subprotocols = [''chat'']\<rparr>)
     < length [Some ''chat'', None, Some ''v2'']
   \<and> \<not> checkSubprotocols (Some [Some ''chat'', None, Some ''v2''])
        \<lparr>socket = \<lparr>readyState = OPEN, outbox = [], closeCalls = []\<rparr>, subprotocols = [''chat'']\<rparr>"
proof -
  let ?s = "\<lparr>socket = \<lparr>readyState = OPEN, outbox = [], closeCalls = []\<rparr>, subprotocols = [''chat'']\<rparr>"
  let ?f = "[Some ''chat'', None, Some ''v2'']"
  have h: "length (subprotocols ?s) < length ?f" by simp
  have "\<not> (\<forall>i. length (subprotocols ?s) \<le> i \<and> i < length ?f \<longrightarrow> ?f ! i = None)"
    by (auto intro: exI [of _ 2])
  with checkSubprotocols_longer_filter [OF h] h show ?thesis by blast
qed

section \<open>Sending to sessions\<close>

lemma unready_iff: "rs \<notin> set unreadyStates \<longleftrightarrow> rs = OPEN"
  by (cases rs) (simp_all add: unreadyStates_def)

lemma sendMessage_own:
  assumes "map_of reg k = Some se"
  shows "sendMessage m k sp reg =
           (if readyState (socket se) = OPEN \<and> checkSubprotocols sp se
            then Inr (True, AList.update k (delivered m se) reg)
            else Inr (False, reg))"
  using assms
  by (simp add: sendMessage_def get_prop_def unready_iff socket_send_def delivered_def)

lemma sendMessage_absent:
  assumes "map_of reg k = None"
  shows "sendMessage m k sp reg =
           (if k \<in> set objectPrototypeKeys then Inl TypeError else Inr (False, reg))"
  using assms by (simp add: sendMessage_def get_prop_def)

lemma sends_own:
  "map_of reg k = Some se \<Longrightarrow>
     sends m sp reg k \<longleftrightarrow> readyState (socket se) = OPEN \<and> checkSubprotocols sp se"
  by (simp add: sends_def sendMessage_own)

lemma sends_cong:
  "map_of reg1 k = map_of reg k \<Longrightarrow> sends m sp reg1 k = sends m sp reg k"
  by (cases "map_of reg k") (simp_all add: sends_def sendMessage_own sendMessage_absent)

lemma sendLoop_keys:
  assumes "distinct ks" and "set ks \<subseteq> fst ` set reg"
  shows "\<exists>reg'. sendLoop m sp ks n reg = Inr (n + length (filter (sends m sp reg) ks), reg')
           \<and> map fst reg' = map fst reg
           \<and> (\<forall>k. map_of reg' k =
                 (if k \<in> set ks \<and> sends m sp reg k then map_option (delivered m) (map_of reg k)
                  else map_of reg k))"
  using assms
proof (induction ks arbitrary: n reg)
  case Nil
  then show ?case by simp
next
  case (Cons k rest)
  from Cons.prems have "k \<in> fst ` set reg" by simp
  then obtain se where se: "map_of reg k = Some se"
    by (metis map_of_eq_None_iff not_None_eq)
  have rest: "distinct rest" "k \<notin> set rest" using Cons.prems by simp_all
  show ?case
  proof (cases "sends m sp reg k")
    case True
    let ?reg1 = "AList.update k (delivered m se) reg"
    from True se have sm: "sendMessage m k sp reg = Inr (True, ?reg1)"
      by (simp add: sends_own sendMessage_own)
    have sub: "set rest \<subseteq> fst ` set ?reg1"
      using Cons.prems by (auto simp add: dom_update)
    from Cons.IH [OF rest(1) sub, of "Suc n"] obtain reg' where
      r: "sendLoop m sp rest (Suc n) ?reg1 =
            Inr (Suc n + length (filter (sends m sp ?reg1) rest), reg')"
      and keys: "map fst reg' = map fst ?reg1"
      and ent: "\<forall>k'. map_of reg' k' =
                 (if k' \<in> set rest \<and> sends m sp ?reg1 k'
                  then map_option (delivered m) (map_of ?reg1 k') else map_of ?reg1 k')"
      by blast
    have same: "sends m sp ?reg1 k' = sends m sp reg k'" if "k' \<in> set rest" for k'
    proof -
      from that rest(2) have "k' \<noteq> k" by blast
      then have "map_of ?reg1 k' = map_of reg k'" by (simp add: update_conv')
      then show ?thesis by (rule sends_cong)
    qed
    then have flt: "filter (sends m sp ?reg1) rest = filter (sends m sp reg) rest"
      by (intro filter_cong) simp_all
    have k_in: "k \<in> fst ` set reg" using Cons.prems by simp
    have keys1: "map fst ?reg1 = map fst reg"
      using k_in by (simp add: update_keys)
    have "sendLoop m sp (k # rest) n reg =
            Inr (n + length (filter (sends m sp reg) (k # rest)), reg')"
      using sm r flt True by simp
    moreover have "map fst reg' = map fst reg" using keys keys1 by simp
    moreover have "map_of reg' k' =
                 (if k' \<in> set (k # rest) \<and> sends m sp reg k'
                  then map_option (delivered m) (map_of reg k') else map_of reg k')" for k'
    proof (cases "k' = k")
      case True
      with ent rest(2) have "map_of reg' k' = map_of ?reg1 k" by simp
      also have "\<dots> = Some (delivered m se)" by (simp add: update_conv')
      finally show ?thesis using True se \<open>sends m sp reg k\<close> by simp
    next
      case False
      then have m1: "map_of ?reg1 k' = map_of reg k'" by (simp add: update_conv')
      then have "sends m sp ?reg1 k' = sends m sp reg k'" by (rule sends_cong)
      with ent m1 False show ?thesis by simp
    qed
    ultimately show ?thesis by blast
  next
    case False
    with se have sm: "sendMessage m k sp reg = Inr (False, reg)"
      by (simp add: sends_own sendMessage_own)
    have sub: "set rest \<subseteq> fst ` set reg" using Cons.prems by simp
    from Cons.IH [OF rest(1) sub, of n] obtain reg' where
      r: "sendLoop m sp rest n reg = Inr (n + length (filter (sends m sp reg) rest), reg')"
      and keys: "map fst reg' = map fst reg"
      and ent: "\<forall>k'. map_of reg' k' =
                 (if k' \<in> set rest \<and> sends m sp reg k'
                  then map_option (delivered m) (map_of reg k') else map_of reg k')"
      by blast
    have "sendLoop m sp (k # rest) n reg =
            Inr (n + length (filter (sends m sp reg) (k # rest)), reg')"
      using sm r False by simp
    moreover have "map_of reg' k' =
                 (if k' \<in> set (k # rest) \<and> sends m sp reg k'
                  then map_option (delivered m) (map_of reg k') else map_of reg k')" for k'
      using ent False by auto
    ultimately show ?thesis using keys by blast
  qed
qed

lemma othersLoop_filter:
  "othersLoop m my sp ks n reg = sendLoop m sp (filter (\<lambda>k. k \<noteq> my) ks) n reg"
  by (induction ks arbitrary: n reg) (auto split: sum.splits)

lemma get_prop_delete:
  "k \<noteq> my \<Longrightarrow> get_prop (AList.delete my reg) k = get_prop reg k"
  by (simp add: get_prop_def)

lemma sendMessage_delete:
  assumes "k \<noteq> my"
  shows "sendMessage m k sp (AList.delete my reg) =
           map_sum id (\<lambda>(ok, r). (ok, AList.delete my r)) (sendMessage m k sp reg)"
  using assms
  by (auto simp add: sendMessage_def get_prop_delete delete_update
           split: property.splits sum.splits)

lemma sendLoop_delete:
  assumes "my \<notin> set ks"
  shows "sendLoop m sp ks n (AList.delete my reg) =
           map_sum id (\<lambda>(c, r). (c, AList.delete my r)) (sendLoop m sp ks n reg)"
  using assms
proof (induction ks arbitrary: n reg)
  case Nil
  then show ?case by simp
next
  case (Cons k rest)
  then have ne: "k \<noteq> my" and rest: "my \<notin> set rest" by auto
  show ?case
  proof (cases "sendMessage m k sp reg")
    case (Inl e)
    with ne show ?thesis by (simp add: sendMessage_delete)
  next
    case (Inr p)
    obtain ok r where p: "p = (ok, r)" by (cases p)
    with Inr ne have "sendMessage m k sp (AList.delete my reg) = Inr (ok, AList.delete my r)"
      by (simp add: sendMessage_delete)
    with Inr p Cons.IH [OF rest] show ?thesis by simp
  qed
qed

section \<open>The negotiation header and the handler\<close>

lemma js_split_nonempty: "js_split sep s \<noteq> []"
  by (induction s) (auto split: list.splits)

lemma js_split_no_sep: "p \<in> set (js_split sep s) \<Longrightarrow> sep \<notin> set p"
proof (induction s arbitrary: p)
  case Nil
  then show ?case by simp
next
  case (Cons c cs)
  show ?case
  proof (cases "c = sep")
    case True
    with Cons show ?thesis by auto
  next
    case False
    obtain t ts where ts: "js_split sep cs = t # ts"
      using js_split_nonempty [of sep cs] by (cases "js_split sep cs") auto
    with False Cons.prems have "p = c # t \<or> p \<in> set ts" by auto
    then show ?thesis
    proof
      assume "p = c # t"
      moreover from ts have "sep \<notin> set t" using Cons.IH [of t] by simp
      ultimately show ?thesis using False by auto
    next
      assume "p \<in> set ts"
      with ts show ?thesis using Cons.IH [of p] by simp
    qed
  qed
qed

lemma js_join_Cons: "ps \<noteq> [] \<Longrightarrow> js_join sep (p # ps) = p @ sep # js_join sep ps"
  by (cases ps) simp_all

lemma js_join_split: "js_join sep (js_split sep s) = s"
proof (induction s)
  case Nil
  then show ?case by simp
next
  case (Cons c cs)
  obtain t ts where ts: "js_split sep cs = t # ts"
    using js_split_nonempty [of sep cs] by (cases "js_split sep cs") auto
  show ?case
  proof (cases "c = sep")
    case True
    then show ?thesis using Cons.IH by (simp add: js_join_Cons js_split_nonempty)
  next
    case False
    have "js_join sep ((c # t) # ts) = c # js_join sep (t # ts)"
      by (cases ts) simp_all
    with False ts Cons.IH show ?thesis by simp
  qed
qed

lemma js_trim_decompose:
  "\<exists>a b. p = a @ js_trim p @ b \<and> (\<forall>c\<in>set a. js_whitespace c) \<and> (\<forall>c\<in>set b. js_whitespace c)"
proof -
  let ?a = "takeWhile js_whitespace p"
  let ?m = "dropWhile js_whitespace p"
  let ?b = "rev (takeWhile js_whitespace (rev ?m))"
  have "rev ?m = takeWhile js_whitespace (rev ?m) @ dropWhile js_whitespace (rev ?m)"
    by simp
  then have "?m = rev (dropWhile js_whitespace (rev ?m)) @ ?b"
    by (metis rev_append rev_rev_ident)
  then have "?m = js_trim p @ ?b" by (simp add: js_trim_def)
  then have "p = ?a @ js_trim p @ ?b" by (metis takeWhile_dropWhile_id)
  moreover have "\<forall>c\<in>set ?a. js_whitespace c" by (auto dest: set_takeWhileD)
  moreover have "\<forall>c\<in>set ?b. js_whitespace c" by (auto dest: set_takeWhileD)
  ultimately show ?thesis by blast
qed

lemma js_trim_hd: "js_trim p \<noteq> [] \<Longrightarrow> \<not> js_whitespace (hd (js_trim p))"
proof -
  assume ne: "js_trim p \<noteq> []"
  let ?m = "dropWhile js_whitespace p"
  let ?r = "dropWhile js_whitespace (rev ?m)"
  from ne have r: "?r \<noteq> []" by (simp add: js_trim_def)
  have m: "?m \<noteq> []"
  proof
    assume e: "?m = []"
    have "?r = []" unfolding e by simp
    with r show False ..
  qed
  have suf: "rev ?m = takeWhile js_whitespace (rev ?m) @ ?r" by simp
  have "last ?r = last (rev ?m)" using r by (metis suf last_appendR)
  also have "\<dots> = hd ?m" using m by (simp add: last_rev)
  finally have "hd (js_trim p) = hd ?m" using r by (simp add: js_trim_def hd_rev)
  moreover have "\<not> js_whitespace (hd ?m)" using m by (rule hd_dropWhile)
  ultimately show ?thesis by simp
qed

lemma js_trim_last: "js_trim p \<noteq> [] \<Longrightarrow> \<not> js_whitespace (last (js_trim p))"
proof -
  assume ne: "js_trim p \<noteq> []"
  let ?r = "dropWhile js_whitespace (rev (dropWhile js_whitespace p))"
  from ne have r: "?r \<noteq> []" by (simp add: js_trim_def)
  have "last (js_trim p) = hd ?r" using r by (simp add: js_trim_def last_rev)
  moreover have "\<not> js_whitespace (hd ?r)" using r by (rule hd_dropWhile)
  ultimately show ?thesis by simp
qed

lemma js_trim_subset: "set (js_trim p) \<subseteq> set p"
proof
  fix x assume "x \<in> set (js_trim p)"
  then have "x \<in> set (dropWhile js_whitespace (rev (dropWhile js_whitespace p)))"
    by (simp add: js_trim_def)
  then have "x \<in> set (rev (dropWhile js_whitespace p))" by (rule set_dropWhileD)
  then have "x \<in> set (dropWhile js_whitespace p)" by simp
  then show "x \<in> set p" by (rule set_dropWhileD)
qed

lemma requested_subprotocols_eq:
  "requested_subprotocols req =
     filter (\<lambda>t. t \<noteq> [])
       (map js_trim (js_split (CHR '','')
          (case sec_websocket_protocol req of None \<Rightarrow> [] | Some v \<Rightarrow> v)))"
  by (simp add: requested_subprotocols_def)

lemma requested_subprotocols_token:
  assumes "t \<in> set (requested_subprotocols req)"
  shows "t \<noteq> [] \<and> \<not> js_whitespace (hd t) \<and> \<not> js_whitespace (last t) \<and> CHR '','' \<notin> set t"
proof -
  from assms obtain p where
    p: "p \<in> set (js_split (CHR '','') (case sec_websocket_protocol req of None \<Rightarrow> [] | Some v \<Rightarrow> v))"
    and t: "t = js_trim p" and ne: "t \<noteq> []"
    by (auto simp add: requested_subprotocols_eq)
  from p have "CHR '','' \<notin> set p" by (rule js_split_no_sep)
  with js_trim_subset [of p] t have "CHR '','' \<notin> set t" by blast
  with t ne js_trim_hd [of p] js_trim_last [of p] show ?thesis by simp
qed

lemma js_index_0: "js_index xs 0 = (case xs of [] \<Rightarrow> None | x # _ \<Rightarrow> Some x)"
  by (cases xs) (simp_all add: js_index_def)

lemma handler_upgrade:
  assumes "upgrade req = Some ''websocket''"
  shows "handler up req s =
     (case up req (case requested_subprotocols req of [] \<Rightarrow> None | p # ps \<Rightarrow> Some p) of
        Inl e \<Rightarrow> Inr (Response 500 None, s)
      | Inr (sock, response) \<Rightarrow>
          Inr (response,
               s\<lparr>connections := connections s @
                   [\<lparr>conn_socket = sock, conn_sessionId = [],
                     conn_subprotocols = requested_subprotocols req\<rparr>]\<rparr>))"
  using assms
  by (simp add: handler_def try_catch_def js_index_0 Let_def split: sum.splits prod.splits)

section \<open>The lifecycle\<close>

lemma issued_append: "issued (es @ es') = issued es @ issued es'"
  by (induction es rule: issued.induct) simp_all

lemma start_serve_fields:
  "sessions (start_serve serve s) = sessions s
   \<and> connections (start_serve serve s) = connections s
   \<and> received (start_serve serve s) = received s
   \<and> pending (start_serve serve s) = pending s
   \<and> shouldShutDown (start_serve serve s) = shouldShutDown s
   \<and> served (start_serve serve s) = Suc (served s)
   \<and> events (start_serve serve s) =
       events s @ (case serve (served s) of
                     Listening \<Rightarrow> [] | ServeThrows e \<Rightarrow> [ServerEvent Error (Some e) None])"
  by (cases "serve (served s)") (simp_all add: start_serve_def Let_def onServerEvent_def)

lemma start_serve_issued: "issued (events (start_serve serve s)) = issued (events s)"
  by (cases "serve (served s)") (simp_all add: start_serve_fields issued_append)

text \<open>What the three functions of a restart leave alone.\<close>

lemma lifecycle_keeps:
  "sessions (restart_call opts serve s) = sessions s
   \<and> connections (restart_call opts serve s) = connections s
   \<and> received (restart_call opts serve s) = received s
   \<and> issued (events (restart_call opts serve s)) = issued (events s)"
  "sessions (listener_shutdown opts serve l s) = sessions s
   \<and> connections (listener_shutdown opts serve l s) = connections s
   \<and> received (listener_shutdown opts serve l s) = received s
   \<and> issued (events (listener_shutdown opts serve l s)) = issued (events s)"
  "sessions (onFinished opts serve s) = sessions s
   \<and> connections (onFinished opts serve s) = connections s
   \<and> received (onFinished opts serve s) = received s
   \<and> issued (events (onFinished opts serve s)) = issued (events s)"
proof (induction opts serve s and opts serve l s and opts serve s
       rule: restart_call_listener_shutdown_onFinished.induct)
  case (1 opts serve s)
  then show ?case
    by (simp add: restart_call.simps [of opts serve s] start_serve_fields issued_append
          split: option.splits serve_outcome.splits)
next
  case (2 opts serve l s)
  then show ?case
    by (simp add: listener_shutdown.simps [of opts serve l s])
next
  case (3 opts serve s)
  then show ?case
    by (simp add: onFinished.simps [of opts serve s] onServerEvent_def issued_append)
qed

text \<open>The flag: a restart clears it, a shutdown of a listener and its callback keep it.\<close>

lemma lifecycle_flag:
  "\<not> shouldShutDown (restart_call opts serve s)"
  "shouldShutDown (listener_shutdown opts serve l s) = shouldShutDown s"
  "shouldShutDown (onFinished opts serve s) = shouldShutDown s"
proof (induction opts serve s and opts serve l s and opts serve s
       rule: restart_call_listener_shutdown_onFinished.induct)
  case (1 opts serve s)
  then show ?case
    by (simp add: restart_call.simps [of opts serve s] start_serve_fields split: option.splits)
next
  case (2 opts serve l s)
  then show ?case
    by (simp add: listener_shutdown.simps [of opts serve l s])
next
  case (3 opts serve s)
  then show ?case
    by (simp add: onFinished.simps [of opts serve s] onServerEvent_def)
qed




text \<open>Running the continuations.\<close>

lemma run_task_fields:
  "sessions (run_task serve t s) = sessions s
   \<and> connections (run_task serve t s) = connections s
   \<and> received (run_task serve t s) = received s
   \<and> pending (run_task serve t s) = pending s
   \<and> shouldShutDown (run_task serve t s) = shouldShutDown s
   \<and> issued (events (run_task serve t s)) = issued (events s)
   \<and> served (run_task serve t s) = served s + (if t = ResumeStart then 1 else 0)
   \<and> (\<exists>es. events (run_task serve t s) = events s @ es
            \<and> (t \<noteq> ResumeShutdown \<longrightarrow> ServerEvent ServerStarted None None \<in> set es))"
  by (cases t)
     (simp_all add: onServerEvent_def start_serve_fields issued_append
        split: serve_outcome.splits)

lemma run_tasks_fields:
  "sessions (run_tasks serve ts s) = sessions s
   \<and> connections (run_tasks serve ts s) = connections s
   \<and> received (run_tasks serve ts s) = received s
   \<and> pending (run_tasks serve ts s) = pending s
   \<and> shouldShutDown (run_tasks serve ts s) = shouldShutDown s
   \<and> issued (events (run_tasks serve ts s)) = issued (events s)
   \<and> served (run_tasks serve ts s) = served s + length (filter (\<lambda>t. t = ResumeStart) ts)
   \<and> (\<exists>es. events (run_tasks serve ts s) = events s @ es
            \<and> ((\<exists>t \<in> set ts. t \<noteq> ResumeShutdown) \<longrightarrow>
                 ServerEvent ServerStarted None None \<in> set es))"
proof (induction ts arbitrary: s)
  case Nil
  then show ?case by simp
next
  case (Cons t ts)
  from run_task_fields [of serve t s] obtain es1 where
    e1: "events (run_task serve t s) = events s @ es1"
    and s1: "t \<noteq> ResumeShutdown \<longrightarrow> ServerEvent ServerStarted None None \<in> set es1"
    by blast
  from Cons.IH [of "run_task serve t s"] obtain es2 where
    e2: "events (run_tasks serve ts (run_task serve t s)) = events (run_task serve t s) @ es2"
    and s2: "(\<exists>t \<in> set ts. t \<noteq> ResumeShutdown) \<longrightarrow>
               ServerEvent ServerStarted None None \<in> set es2"
    by blast
  have "events (run_tasks serve (t # ts) s) = events s @ (es1 @ es2)"
    using e1 e2 by simp
  moreover have "(\<exists>t' \<in> set (t # ts). t' \<noteq> ResumeShutdown) \<longrightarrow>
                   ServerEvent ServerStarted None None \<in> set (es1 @ es2)"
    using s1 s2 by auto
  ultimately have "\<exists>es. events (run_tasks serve (t # ts) s) = events s @ es
            \<and> ((\<exists>t' \<in> set (t # ts). t' \<noteq> ResumeShutdown) \<longrightarrow>
                 ServerEvent ServerStarted None None \<in> set es)"
    by blast
  then show ?case
    using Cons.IH [of "run_task serve t s"] run_task_fields [of serve t s] by simp
qed

lemma drain_fields:
  "sessions (drain serve s) = sessions s
   \<and> connections (drain serve s) = connections s
   \<and> received (drain serve s) = received s
   \<and> pending (drain serve s) = []
   \<and> shouldShutDown (drain serve s) = shouldShutDown s
   \<and> issued (events (drain serve s)) = issued (events s)
   \<and> served (drain serve s) = served s + length (filter (\<lambda>t. t = ResumeStart) (pending s))
   \<and> (\<exists>es. events (drain serve s) = events s @ es
            \<and> ((\<exists>t \<in> set (pending s). t \<noteq> ResumeShutdown) \<longrightarrow>
                 ServerEvent ServerStarted None None \<in> set es))"
  using run_tasks_fields [of serve "pending s" "s\<lparr>pending := []\<rparr>"]
  by (simp add: drain_def)


text \<open>The lifecycle methods as whole calls.\<close>

lemma restart_fields:
  "sessions (restart opts serve s) = sessions s
   \<and> issued (events (restart opts serve s)) = issued (events s)
   \<and> pending (restart opts serve s) = []
   \<and> \<not> shouldShutDown (restart opts serve s)"
  by (simp add: restart_def drain_fields lifecycle_keeps lifecycle_flag)

lemma shutdown_call_fields:
  "sessions (shutdown_call opts serve s) = sessions s
   \<and> events (shutdown_call opts serve s) = events s
   \<and> served (shutdown_call opts serve s) = served s
   \<and> pending (shutdown_call opts serve s) = pending s @ [ResumeShutdown]
   \<and> shouldShutDown (shutdown_call opts serve s)"
  by (simp add: shutdown_call_def Let_def listener_shutdown.simps onFinished.simps
        split: option.splits)

lemma shutdown_fields:
  "sessions (shutdown opts serve s) = sessions s
   \<and> issued (events (shutdown opts serve s)) = issued (events s)
   \<and> pending (shutdown opts serve s) = []
   \<and> shouldShutDown (shutdown opts serve s)"
  by (simp add: shutdown_def drain_fields shutdown_call_fields)


lemma listener_finished_fields:
  "sessions (listener_finished opts serve l s) = sessions s
   \<and> issued (events (listener_finished opts serve l s)) = issued (events s)
   \<and> shouldShutDown (listener_finished opts serve l s) = shouldShutDown s
   \<and> (pending s = [] \<longrightarrow> pending (listener_finished opts serve l s) = [])"
  by (simp add: listener_finished_def drain_fields lifecycle_keeps lifecycle_flag)



section \<open>Runs: events, flag and registry keys\<close>

lemma handler_keeps:
  assumes "handler up req s = Inr (r, s')"
  shows "events s' = events s \<and> sessions s' = sessions s
         \<and> shouldShutDown s' = shouldShutDown s \<and> pending s' = pending s
         \<and> length (connections s) \<le> length (connections s')"
  using assms
  by (auto simp add: handler_def try_catch_def Let_def split: if_splits sum.splits prod.splits)

lemma sendMessage_keys:
  assumes "sendMessage m k sp reg = Inr (ok, reg')"
  shows "map fst reg' = map fst reg"
proof (cases "map_of reg k")
  case None
  with assms show ?thesis by (simp add: sendMessage_absent split: if_splits)
next
  case (Some se)
  then have "(k, se) \<in> set reg" by (rule map_of_SomeD)
  then have "k \<in> fst ` set reg" by force
  then have uk: "map fst (AList.update k v reg) = map fst reg" for v
    by (simp add: update_keys)
  from assms Some show ?thesis
    by (auto simp add: sendMessage_own uk split: if_splits)
qed

lemma disconnectSession_keys:
  assumes "disconnectSession k code reason reg = Inr (ok, reg')"
  shows "map fst reg' = removeAll k (map fst reg)"
proof (cases "map_of reg k")
  case None
  then have "k \<notin> set (map fst reg)" by (simp add: map_of_eq_None_iff)
  then have "removeAll k (map fst reg) = map fst reg" by (rule removeAll_id)
  with assms None show ?thesis
    by (simp add: disconnectSession_def get_prop_def split: if_splits)
next
  case (Some se)
  with assms show ?thesis
    by (auto simp add: disconnectSession_def get_prop_def Let_def delete_update_same delete_keys
          split: sum.splits)
qed

lemma sendLoop_preserves_keys:
  "sendLoop m sp ks n reg = Inr (c, reg') \<Longrightarrow> map fst reg' = map fst reg"
proof (induction ks arbitrary: n reg)
  case Nil
  then show ?case by simp
next
  case (Cons k rest)
  show ?case
  proof (cases "sendMessage m k sp reg")
    case (Inl e)
    with Cons.prems show ?thesis by simp
  next
    case (Inr p)
    obtain ok r where p: "p = (ok, r)" by (cases p)
    with Inr have "map fst r = map fst reg" by (simp add: sendMessage_keys)
    moreover from Inr p Cons.prems
    have "sendLoop m sp rest (if ok then Suc n else n) r = Inr (c, reg')" by simp
    then have "map fst reg' = map fst r" by (rule Cons.IH)
    ultimately show ?thesis by simp
  qed
qed

lemma sendMessage_object_keys:
  "sendMessage m k sp reg = Inr (ok, reg') \<Longrightarrow> object_keys reg' = object_keys reg"
  by (simp add: object_keys_def sendMessage_keys)

lemma sendMessageToAll_object_keys:
  "sendMessageToAll m sp reg = Inr (c, reg') \<Longrightarrow> object_keys reg' = object_keys reg"
  by (simp add: object_keys_def sendMessageToAll_def sendLoop_preserves_keys)

lemma sendMessageToOthers_object_keys:
  "sendMessageToOthers m my sp reg = Inr (c, reg') \<Longrightarrow> object_keys reg' = object_keys reg"
  by (simp add: object_keys_def sendMessageToOthers_def othersLoop_filter
        sendLoop_preserves_keys)

lemma disconnectSession_object_keys:
  "disconnectSession k code reason reg = Inr (ok, reg') \<Longrightarrow>
     object_keys reg' = removeAll k (object_keys reg)"
  by (simp add: object_keys_def disconnectSession_keys)

lemma keys_delete:
  "set (object_keys (AList.delete k r)) \<subseteq> set (object_keys r)
   \<and> (distinct (object_keys r) \<longrightarrow> distinct (object_keys (AList.delete k r)))"
  unfolding object_keys_def delete_keys by (auto simp add: distinct_removeAll)

lemma step_events:
  "issued (events (step opts serve a s)) = issued (events s) @ minted a s"
proof (cases a)
  case (Request up req)
  then show ?thesis by (auto split: sum.splits dest: handler_keeps)
next
  case (SocketOpen c uuid)
  then show ?thesis
    by (simp add: socket_onopen_def onServerEvent_def Let_def issued_append)
next
  case (SocketClose c)
  then show ?thesis
    by (simp add: socket_onclose_def onServerEvent_def Let_def issued_append)
next
  case (SocketError c type)
  then show ?thesis
    by (simp add: socket_onerror_def onServerEvent_def Let_def issued_append)
next
  case (SocketMessage c data)
  then show ?thesis by (simp add: socket_onmessage_def Let_def)
next
  case (ListenerFinished l)
  then show ?thesis by (simp add: listener_finished_fields)
next
  case Restart
  then show ?thesis by (simp add: restart_fields)
next
  case Shutdown
  then show ?thesis by (simp add: shutdown_fields)
next
  case (SendMessage m k sp)
  then show ?thesis by (auto split: sum.splits)
next
  case (SendMessageToAll m sp)
  then show ?thesis by (auto split: sum.splits)
next
  case (SendMessageToOthers m my sp)
  then show ?thesis by (auto split: sum.splits)
next
  case (DisconnectSession k code reason)
  then show ?thesis by (auto split: sum.splits)
qed

lemma drawn_append:
  "drawn opts serve (xs @ ys) s =
     drawn opts serve xs s @ drawn opts serve ys (run opts serve xs s)"
  by (induction xs arbitrary: s) simp_all

text \<open>
  The identifiers handed out along a run are the strings the generator returned, in order:
  the code adds nothing to them and takes nothing away.
\<close>

lemma run_events:
  "issued (events (run opts serve as s)) = issued (events s) @ drawn opts serve as s"
  by (induction as arbitrary: s) (simp_all add: step_events)

lemma step_keys:
  "set (object_keys (sessions (step opts serve a s)))
     \<subseteq> set (object_keys (sessions s)) \<union> set (minted a s)
   \<and> (distinct (object_keys (sessions s)) \<longrightarrow>
        distinct (object_keys (sessions (step opts serve a s))))"
proof (cases a)
  case (Request up req)
  then show ?thesis by (auto split: sum.splits dest: handler_keeps)
next
  case (SocketOpen c uuid)
  then show ?thesis
    by (simp add: socket_onopen_def onServerEvent_def Let_def object_keys_def dom_update
             distinct_update)
next
  case (SocketClose c)
  then show ?thesis
    using keys_delete [of "conn_sessionId (connections s ! c)" "sessions s"]
    by (simp add: socket_onclose_def onServerEvent_def Let_def)
next
  case (SocketError c type)
  then show ?thesis by (simp add: socket_onerror_def onServerEvent_def Let_def)
next
  case (SocketMessage c data)
  then show ?thesis by (simp add: socket_onmessage_def Let_def)
next
  case (ListenerFinished l)
  then show ?thesis by (simp add: listener_finished_fields)
next
  case Restart
  then show ?thesis by (simp add: restart_fields)
next
  case Shutdown
  then show ?thesis by (simp add: shutdown_fields)
next
  case (SendMessage m k sp)
  show ?thesis
  proof (cases "sendMessage m k sp (sessions s)")
    case (Inl e)
    with SendMessage show ?thesis by simp
  next
    case (Inr p)
    obtain ok reg' where "p = (ok, reg')" by (cases p)
    with Inr SendMessage sendMessage_object_keys [of m k sp "sessions s" ok reg']
    show ?thesis by simp
  qed
next
  case (SendMessageToAll m sp)
  show ?thesis
  proof (cases "sendMessageToAll m sp (sessions s)")
    case (Inl e)
    with SendMessageToAll show ?thesis by simp
  next
    case (Inr p)
    obtain n reg' where "p = (n, reg')" by (cases p)
    with Inr SendMessageToAll sendMessageToAll_object_keys [of m sp "sessions s" n reg']
    show ?thesis by simp
  qed
next
  case (SendMessageToOthers m my sp)
  show ?thesis
  proof (cases "sendMessageToOthers m my sp (sessions s)")
    case (Inl e)
    with SendMessageToOthers show ?thesis by simp
  next
    case (Inr p)
    obtain n reg' where "p = (n, reg')" by (cases p)
    with Inr SendMessageToOthers
      sendMessageToOthers_object_keys [of m my sp "sessions s" n reg']
    show ?thesis by simp
  qed
next
  case (DisconnectSession k code reason)
  show ?thesis
  proof (cases "disconnectSession k code reason (sessions s)")
    case (Inl e)
    with DisconnectSession show ?thesis by simp
  next
    case (Inr p)
    obtain ok reg' where "p = (ok, reg')" by (cases p)
    with Inr DisconnectSession
      disconnectSession_object_keys [of k code reason "sessions s" ok reg']
    show ?thesis by (auto simp add: distinct_removeAll)
  qed
qed

lemma run_keys:
  "set (object_keys (sessions (run opts serve as s)))
     \<subseteq> set (object_keys (sessions s)) \<union> set (drawn opts serve as s)
   \<and> (distinct (object_keys (sessions s)) \<longrightarrow>
        distinct (object_keys (sessions (run opts serve as s))))"
proof (induction as arbitrary: s)
  case Nil
  then show ?case by simp
next
  case (Cons a as)
  from Cons.IH [of "step opts serve a s"] step_keys [of opts serve a s]
  show ?case by auto
qed

text \<open>
  The flag is written by \<^verbatim>\<open>restart\<close> and \<^verbatim>\<open>shutdown\<close> only, and no step leaves a
  continuation waiting.
\<close>

lemma step_flag:
  "(a \<noteq> Restart \<longrightarrow> shouldShutDown s \<longrightarrow> shouldShutDown (step opts serve a s))
   \<and> (a \<noteq> Shutdown \<longrightarrow> \<not> shouldShutDown s \<longrightarrow> \<not> shouldShutDown (step opts serve a s))
   \<and> (pending s = [] \<longrightarrow> pending (step opts serve a s) = [])"
proof (cases a)
  case (Request up req)
  then show ?thesis by (auto split: sum.splits dest: handler_keeps)
next
  case (SocketOpen c uuid)
  then show ?thesis by (simp add: socket_onopen_def onServerEvent_def Let_def)
next
  case (SocketClose c)
  then show ?thesis by (simp add: socket_onclose_def onServerEvent_def Let_def)
next
  case (SocketError c type)
  then show ?thesis by (simp add: socket_onerror_def onServerEvent_def Let_def)
next
  case (SocketMessage c data)
  then show ?thesis by (simp add: socket_onmessage_def Let_def)
next
  case (ListenerFinished l)
  then show ?thesis by (simp add: listener_finished_fields)
next
  case Restart
  then show ?thesis by (simp add: restart_fields)
next
  case Shutdown
  then show ?thesis by (simp add: shutdown_fields)
next
  case (SendMessage m k sp)
  then show ?thesis by (auto split: sum.splits)
next
  case (SendMessageToAll m sp)
  then show ?thesis by (auto split: sum.splits)
next
  case (SendMessageToOthers m my sp)
  then show ?thesis by (auto split: sum.splits)
next
  case (DisconnectSession k code reason)
  then show ?thesis by (auto split: sum.splits)
qed

lemma run_flag:
  "((\<forall>a \<in> set as. a \<noteq> Restart) \<longrightarrow> shouldShutDown s \<longrightarrow>
       shouldShutDown (run opts serve as s))
   \<and> ((\<forall>a \<in> set as. a \<noteq> Shutdown) \<longrightarrow> \<not> shouldShutDown s \<longrightarrow>
       \<not> shouldShutDown (run opts serve as s))
   \<and> (pending s = [] \<longrightarrow> pending (run opts serve as s) = [])"
proof (induction as arbitrary: s)
  case Nil
  then show ?case by simp
next
  case (Cons a as)
  from Cons.IH [of "step opts serve a s"] step_flag [of a s opts serve]
  show ?case by auto
qed

text \<open>Between the steps of a run of a new server no continuation waits.\<close>

lemma run_idle: "pending (run opts serve as (new_server serve)) = []"
proof -
  have "pending (new_server serve) = []"
    by (simp add: new_server_def start_serve_fields initial_def)
  with run_flag [of as "new_server serve" opts serve] show ?thesis by simp
qed

section \<open>Claims about sending and disconnecting\<close>

lemma disconnectSession_own:
  assumes "map_of reg k = Some se"
  shows "disconnectSession k code reason reg =
           (case socket_close (socket se) code reason of
              Inl e \<Rightarrow> Inl e
            | Inr sock \<Rightarrow> Inr (True, AList.delete k reg))"
  using assms
  by (simp add: disconnectSession_def get_prop_def Let_def delete_update_same
        split: sum.splits)

lemma disconnectSession_absent:
  assumes "map_of reg k = None"
  shows "disconnectSession k code reason reg =
           (if k \<in> set objectPrototypeKeys then Inr (False, reg) else Inl TypeError)"
  using assms by (simp add: disconnectSession_def get_prop_def)

text \<open>
  C1. \<^verbatim>\<open>disconnectSession\<close> is documented never to throw and to return \<^verbatim>\<open>false\<close> when
  there is no session to close. The code reads \<^verbatim>\<open>session.socket\<close> from
  \<^verbatim>\<open>undefined\<close> instead: the first call for \<open>S2\<close> closes it and returns
  \<^verbatim>\<open>true\<close>, and the repeated call throws a \<^verbatim>\<open>TypeError\<close>, as does every call
  for an identifier that \<^verbatim>\<open>this.#sessions[sessionId]\<close> does not find.
\<close>

theorem disconnectSession_repeat_throws:
  "disconnectSession ''S2'' (Some 1000) None
     [(''S2'', \<lparr>socket = \<lparr>readyState = OPEN, outbox = [], closeCalls = []\<rparr>,
                subprotocols = [''chatv1'', ''v2'']\<rparr>)] = Inr (True, [])
   \<and> disconnectSession ''S2'' (Some 1000) None [] = Inl TypeError"
  by (simp add: disconnectSession_def get_prop_def objectPrototypeKeys_def socket_close_def
        Let_def)

text \<open>
  C4. \<^verbatim>\<open>sendMessage\<close> is to return \<^verbatim>\<open>false\<close>, and never to throw, for every
  identifier that is not in the registry. For an identifier that names a member of
  \<^verbatim>\<open>Object.prototype\<close>, such as \<open>toString\<close>, the test of \<^verbatim>\<open>session\<close> passes and
  reading \<^verbatim>\<open>session.socket.readyState\<close> throws a \<^verbatim>\<open>TypeError\<close>.
\<close>

theorem sendMessage_inherited_throws:
  "sendMessage ''hello'' ''toString'' None [] = Inl TypeError"
  by (simp add: sendMessage_def get_prop_def objectPrototypeKeys_def)

text \<open>
  C5. \<^verbatim>\<open>sendMessageToAll\<close> applies \<^verbatim>\<open>sendMessage\<close> to every key of the registry (the
  keys of an object are distinct) and returns the number of keys for which it returned
  \<^verbatim>\<open>true\<close>; it does not throw, the sessions it sent to have the message queued and
  the others are as before. With three open sessions
  negotiated as \<open>[chatv1]\<close>, \<open>[chatv1, v2]\<close> and \<open>[]\<close>, the filter \<open>[chatv1]\<close> sends
  to the first two only and the result is 2.
\<close>

theorem sendMessageToAll_count:
  assumes "distinct (object_keys reg)"
  shows "(\<exists>reg'. sendMessageToAll message sp reg =
                   Inr (length (filter (sends message sp reg) (object_keys reg)), reg')
               \<and> object_keys reg' = object_keys reg
               \<and> (\<forall>k. map_of reg' k =
                     (if sends message sp reg k
                      then map_option (delivered message) (map_of reg k) else map_of reg k)))
         \<and> sendMessageToAll ''hello'' (Some [Some ''chatv1''])
             [(''S1'', \<lparr>socket = \<lparr>readyState = OPEN, outbox = [], closeCalls = []\<rparr>,
                        subprotocols = [''chatv1'']\<rparr>),
              (''S2'', \<lparr>socket = \<lparr>readyState = OPEN, outbox = [], closeCalls = []\<rparr>,
                        subprotocols = [''chatv1'', ''v2'']\<rparr>),
              (''S3'', \<lparr>socket = \<lparr>readyState = OPEN, outbox = [], closeCalls = []\<rparr>,
                        subprotocols = []\<rparr>)]
           = Inr (2,
             [(''S1'', \<lparr>socket = \<lparr>readyState = OPEN, outbox = [''hello''], closeCalls = []\<rparr>,
                        subprotocols = [''chatv1'']\<rparr>),
              (''S2'', \<lparr>socket = \<lparr>readyState = OPEN, outbox = [''hello''], closeCalls = []\<rparr>,
                        subprotocols = [''chatv1'', ''v2'']\<rparr>),
              (''S3'', \<lparr>socket = \<lparr>readyState = OPEN, outbox = [], closeCalls = []\<rparr>,
                        subprotocols = []\<rparr>)])"
proof (intro conjI)
  have sub: "set (object_keys reg) \<subseteq> fst ` set reg" by (simp add: object_keys_def)
  from sendLoop_keys [OF assms sub, of message sp 0] obtain reg' where
    r: "sendLoop message sp (object_keys reg) 0 reg =
          Inr (length (filter (sends message sp reg) (object_keys reg)), reg')"
    and keys: "map fst reg' = map fst reg"
    and ent: "\<forall>k. map_of reg' k =
               (if k \<in> set (object_keys reg) \<and> sends message sp reg k
                then map_option (delivered message) (map_of reg k) else map_of reg k)"
    by auto
  have "map_of reg' k =
          (if sends message sp reg k
           then map_option (delivered message) (map_of reg k) else map_of reg k)" for k
  proof (cases "k \<in> set (object_keys reg)")
    case True
    with ent show ?thesis by simp
  next
    case False
    then have "map_of reg k = None" by (simp add: object_keys_def map_of_eq_None_iff)
    with ent False show ?thesis by simp
  qed
  with r keys
  show "\<exists>reg'. sendMessageToAll message sp reg =
                   Inr (length (filter (sends message sp reg) (object_keys reg)), reg')
               \<and> object_keys reg' = object_keys reg
               \<and> (\<forall>k. map_of reg' k =
                     (if sends message sp reg k
                      then map_option (delivered message) (map_of reg k) else map_of reg k))"
    by (auto simp add: sendMessageToAll_def object_keys_def)
next
  show "sendMessageToAll ''hello'' (Some [Some ''chatv1''])
             [(''S1'', \<lparr>socket = \<lparr>readyState = OPEN, outbox = [], closeCalls = []\<rparr>,
                        subprotocols = [''chatv1'']\<rparr>),
              (''S2'', \<lparr>socket = \<lparr>readyState = OPEN, outbox = [], closeCalls = []\<rparr>,
                        subprotocols = [''chatv1'', ''v2'']\<rparr>),
              (''S3'', \<lparr>socket = \<lparr>readyState = OPEN, outbox = [], closeCalls = []\<rparr>,
                        subprotocols = []\<rparr>)]
           = Inr (2,
             [(''S1'', \<lparr>socket = \<lparr>readyState = OPEN, outbox = [''hello''], closeCalls = []\<rparr>,
                        subprotocols = [''chatv1'']\<rparr>),
              (''S2'', \<lparr>socket = \<lparr>readyState = OPEN, outbox = [''hello''], closeCalls = []\<rparr>,
                        subprotocols = [''chatv1'', ''v2'']\<rparr>),
              (''S3'', \<lparr>socket = \<lparr>readyState = OPEN, outbox = [], closeCalls = []\<rparr>,
                        subprotocols = []\<rparr>)])"
    by (simp add: sendMessageToAll_def object_keys_def sendMessage_def get_prop_def
          unreadyStates_def checkSubprotocols_def checkLoop.simps js_index_def socket_send_def)
qed

theorem sendMessageToAll_count_witness:
  "distinct (object_keys
     [(''a'', \<lparr>socket = \<lparr>readyState = OPEN, outbox = [], closeCalls = []\<rparr>, subprotocols = [''p'']\<rparr>),
      (''b'', \<lparr>socket = \<lparr>readyState = CLOSED, outbox = [], closeCalls = []\<rparr>, subprotocols = [''p'']\<rparr>)])
   \<and> sendMessageToAll ''m'' None
     [(''a'', \<lparr>socket = \<lparr>readyState = OPEN, outbox = [], closeCalls = []\<rparr>, subprotocols = [''p'']\<rparr>),
      (''b'', \<lparr>socket = \<lparr>readyState = CLOSED, outbox = [], closeCalls = []\<rparr>, subprotocols = [''p'']\<rparr>)]
     = Inr (1,
     [(''a'', \<lparr>socket = \<lparr>readyState = OPEN, outbox = [''m''], closeCalls = []\<rparr>, subprotocols = [''p'']\<rparr>),
      (''b'', \<lparr>socket = \<lparr>readyState = CLOSED, outbox = [], closeCalls = []\<rparr>, subprotocols = [''p'']\<rparr>)])"
proof -
  let ?reg = "[(''a'', \<lparr>socket = \<lparr>readyState = OPEN, outbox = [], closeCalls = []\<rparr>, subprotocols = [''p'']\<rparr>),
      (''b'', \<lparr>socket = \<lparr>readyState = CLOSED, outbox = [], closeCalls = []\<rparr>, subprotocols = [''p'']\<rparr>)]"
  have h: "distinct (object_keys ?reg)" by (simp add: object_keys_def)
  from sendMessageToAll_count [OF h, of "''m''" None] obtain reg' where
    r: "sendMessageToAll ''m'' None ?reg =
          Inr (length (filter (sends ''m'' None ?reg) (object_keys ?reg)), reg')"
    and keys: "object_keys reg' = object_keys ?reg"
    and ent: "\<forall>k. map_of reg' k =
               (if sends ''m'' None ?reg k
                then map_option (delivered ''m'') (map_of ?reg k) else map_of ?reg k)"
    by blast
  have n: "length (filter (sends ''m'' None ?reg) (object_keys ?reg)) = 1"
    by (simp add: sends_def object_keys_def sendMessage_def get_prop_def unreadyStates_def
          checkSubprotocols_def socket_send_def)
  from keys obtain x y where reg': "reg' = [(''a'', x), (''b'', y)]"
    by (auto simp add: object_keys_def map_eq_Cons_conv)
  have sa: "sends ''m'' None ?reg ''a''" and sb: "\<not> sends ''m'' None ?reg ''b''"
    by (simp_all add: sends_def sendMessage_def get_prop_def unreadyStates_def
          checkSubprotocols_def socket_send_def)
  from ent [rule_format, of "''a''"] sa reg' have x: "x = delivered ''m'' (snd (hd ?reg))" by simp
  from ent [rule_format, of "''b''"] sb reg' have y: "y = snd (hd (tl ?reg))" by simp
  from r n reg' x y h show ?thesis by (simp add: delivered_def)
qed

text \<open>
  C6. \<^verbatim>\<open>sendMessageToOthers\<close> never sends to the excluded identifier, whatever its
  session is: its entry is as before. It returns the number of the other keys for which
  \<^verbatim>\<open>sendMessage\<close> returned \<^verbatim>\<open>true\<close>, and count and sends are those of
  \<^verbatim>\<open>sendMessageToAll\<close> on the registry without the excluded identifier.
\<close>

theorem sendMessageToOthers_skips:
  assumes "distinct (object_keys reg)"
  shows "\<exists>reg'. sendMessageToOthers message mySessionId sp reg =
                   Inr (length (filter (\<lambda>k. k \<noteq> mySessionId \<and> sends message sp reg k)
                                  (object_keys reg)), reg')
               \<and> map_of reg' mySessionId = map_of reg mySessionId
               \<and> sendMessageToAll message sp (AList.delete mySessionId reg) =
                   Inr (length (filter (\<lambda>k. k \<noteq> mySessionId \<and> sends message sp reg k)
                                  (object_keys reg)),
                        AList.delete mySessionId reg')"
proof -
  let ?ks = "filter (\<lambda>k. k \<noteq> mySessionId) (object_keys reg)"
  have d: "distinct ?ks" using assms by simp
  have sub: "set ?ks \<subseteq> fst ` set reg" by (auto simp add: object_keys_def)
  from sendLoop_keys [OF d sub, of message sp 0] obtain reg' where
    r: "sendLoop message sp ?ks 0 reg = Inr (length (filter (sends message sp reg) ?ks), reg')"
    and ent: "\<forall>k. map_of reg' k =
               (if k \<in> set ?ks \<and> sends message sp reg k
                then map_option (delivered message) (map_of reg k) else map_of reg k)"
    by auto
  have cnt: "filter (sends message sp reg) ?ks =
             filter (\<lambda>k. k \<noteq> mySessionId \<and> sends message sp reg k) (object_keys reg)"
    by (simp add: conj_commute)
  have others: "sendMessageToOthers message mySessionId sp reg =
          Inr (length (filter (\<lambda>k. k \<noteq> mySessionId \<and> sends message sp reg k)
                         (object_keys reg)), reg')"
    using r cnt by (simp add: sendMessageToOthers_def othersLoop_filter)
  have mine: "map_of reg' mySessionId = map_of reg mySessionId"
    using ent by simp
  have keys: "object_keys (AList.delete mySessionId reg) = ?ks"
    by (simp add: object_keys_def delete_keys removeAll_filter_not_eq) (metis)
  have notin: "mySessionId \<notin> set ?ks" by simp
  have "sendMessageToAll message sp (AList.delete mySessionId reg) =
          sendLoop message sp ?ks 0 (AList.delete mySessionId reg)"
    by (simp add: sendMessageToAll_def keys)
  also have "\<dots> = map_sum id (\<lambda>(c, r). (c, AList.delete mySessionId r))
                     (sendLoop message sp ?ks 0 reg)"
    by (rule sendLoop_delete [OF notin])
  also have "\<dots> = Inr (length (filter (\<lambda>k. k \<noteq> mySessionId \<and> sends message sp reg k)
                         (object_keys reg)), AList.delete mySessionId reg')"
    using r cnt by simp
  finally show ?thesis using others mine by blast
qed

theorem sendMessageToOthers_skips_witness:
  "distinct (object_keys
     [(''a'', \<lparr>socket = \<lparr>readyState = OPEN, outbox = [], closeCalls = []\<rparr>, subprotocols = [''p'']\<rparr>),
      (''b'', \<lparr>socket = \<lparr>readyState = OPEN, outbox = [], closeCalls = []\<rparr>, subprotocols = [''p'']\<rparr>)])
   \<and> (case sendMessageToOthers ''m'' ''a'' None
     [(''a'', \<lparr>socket = \<lparr>readyState = OPEN, outbox = [], closeCalls = []\<rparr>, subprotocols = [''p'']\<rparr>),
      (''b'', \<lparr>socket = \<lparr>readyState = OPEN, outbox = [], closeCalls = []\<rparr>, subprotocols = [''p'']\<rparr>)]
      of Inl e \<Rightarrow> False
       | Inr (n, reg') \<Rightarrow>
           n = 1 \<and> map_of reg' ''a'' =
             Some \<lparr>socket = \<lparr>readyState = OPEN, outbox = [], closeCalls = []\<rparr>, subprotocols = [''p'']\<rparr>)"
proof -
  let ?reg = "[(''a'', \<lparr>socket = \<lparr>readyState = OPEN, outbox = [], closeCalls = []\<rparr>, subprotocols = [''p'']\<rparr>),
      (''b'', \<lparr>socket = \<lparr>readyState = OPEN, outbox = [], closeCalls = []\<rparr>, subprotocols = [''p'']\<rparr>)]"
  have h: "distinct (object_keys ?reg)" by (simp add: object_keys_def)
  from sendMessageToOthers_skips [OF h, of "''m''" "''a''" None] obtain reg' where
    r: "sendMessageToOthers ''m'' ''a'' None ?reg =
          Inr (length (filter (\<lambda>k. k \<noteq> ''a'' \<and> sends ''m'' None ?reg k) (object_keys ?reg)), reg')"
    and mine: "map_of reg' ''a'' = map_of ?reg ''a''"
    by blast
  have n: "length (filter (\<lambda>k. k \<noteq> ''a'' \<and> sends ''m'' None ?reg k) (object_keys ?reg)) = 1"
    by (simp add: sends_def object_keys_def sendMessage_def get_prop_def unreadyStates_def
          checkSubprotocols_def socket_send_def)
  from r n mine h show ?thesis by simp
qed

section \<open>Claims about the lifecycle\<close>



section \<open>Claims about the handler\<close>

text \<open>
  C7. A request whose \<^verbatim>\<open>upgrade\<close> header is not \<open>websocket\<close> is answered with status
  501, and a request for which the upgrade throws with status 500; in both cases the
  handler returns normally and the state of the server, with its registry and its
  connections, is as before, so that no session can come of the request.
\<close>

theorem handler_rejects:
  "(upgrade req \<noteq> Some ''websocket'' \<longrightarrow> handler up req s = Inr (Response 501 None, s))
   \<and> (upgrade req = Some ''websocket''
        \<and> up req (js_index (requested_subprotocols req) 0) = Inl e \<longrightarrow>
      handler up req s = Inr (Response 500 None, s))"
  by (simp add: handler_def try_catch_def Let_def)

theorem handler_rejects_witness:
  "upgrade \<lparr>upgrade = Some ''h2c'', sec_websocket_protocol = None\<rparr> \<noteq> Some ''websocket''
   \<and> handler accept_upgrade \<lparr>upgrade = Some ''h2c'', sec_websocket_protocol = None\<rparr> initial
       = Inr (Response 501 None, initial)
   \<and> upgrade \<lparr>upgrade = Some ''websocket'', sec_websocket_protocol = Some ''chatv1''\<rparr>
       = Some ''websocket''
   \<and> reject_upgrade \<lparr>upgrade = Some ''websocket'', sec_websocket_protocol = Some ''chatv1''\<rparr>
        (js_index (requested_subprotocols
           \<lparr>upgrade = Some ''websocket'', sec_websocket_protocol = Some ''chatv1''\<rparr>) 0)
       = Inl (UpgradeError ''Invalid Header'')
   \<and> handler reject_upgrade
        \<lparr>upgrade = Some ''websocket'', sec_websocket_protocol = Some ''chatv1''\<rparr> initial
       = Inr (Response 500 None, initial)"
proof -
  let ?r1 = "\<lparr>upgrade = Some ''h2c'', sec_websocket_protocol = None\<rparr>"
  let ?r2 = "\<lparr>upgrade = Some ''websocket'', sec_websocket_protocol = Some ''chatv1''\<rparr>"
  have h1: "upgrade ?r1 \<noteq> Some ''websocket''" by simp
  have h2: "upgrade ?r2 = Some ''websocket''" by simp
  have h3: "reject_upgrade ?r2 (js_index (requested_subprotocols ?r2) 0)
              = Inl (UpgradeError ''Invalid Header'')"
    by (simp add: reject_upgrade_def)
  from handler_rejects [where req = ?r1 and up = accept_upgrade and s = initial]
       handler_rejects [where req = ?r2 and up = reject_upgrade and s = initial
                          and e = "UpgradeError ''Invalid Header''"]
       h1 h2 h3
  show ?thesis by blast
qed

text \<open>
  C8. The requested sub-protocols are the pieces of the negotiation header between its
  commas (joined by commas they give the header back, and none contains a comma), each
  trimmed of white space at both ends, without the empty ones and in the order of the
  header; so every token is non-empty, starts and ends with a character that is not white
  space and contains no comma. The upgrade is offered the first token, or no protocol when
  there is none.
\<close>

theorem requested_subprotocols_parse:
  "js_join (CHR '','')
       (js_split (CHR '','') (case sec_websocket_protocol req of None \<Rightarrow> [] | Some v \<Rightarrow> v))
     = (case sec_websocket_protocol req of None \<Rightarrow> [] | Some v \<Rightarrow> v)
   \<and> (\<forall>p \<in> set (js_split (CHR '','')
                    (case sec_websocket_protocol req of None \<Rightarrow> [] | Some v \<Rightarrow> v)).
         CHR '','' \<notin> set p)
   \<and> (\<forall>p. \<exists>a b. p = a @ js_trim p @ b
                 \<and> (\<forall>c \<in> set a. js_whitespace c) \<and> (\<forall>c \<in> set b. js_whitespace c))
   \<and> requested_subprotocols req =
        filter (\<lambda>t. t \<noteq> [])
          (map js_trim (js_split (CHR '','')
             (case sec_websocket_protocol req of None \<Rightarrow> [] | Some v \<Rightarrow> v)))
   \<and> (\<forall>t \<in> set (requested_subprotocols req).
         t \<noteq> [] \<and> \<not> js_whitespace (hd t) \<and> \<not> js_whitespace (last t) \<and> CHR '','' \<notin> set t)
   \<and> (upgrade req = Some ''websocket'' \<longrightarrow>
        handler up req s =
          (case up req (case requested_subprotocols req of [] \<Rightarrow> None | p # ps \<Rightarrow> Some p) of
             Inl e \<Rightarrow> Inr (Response 500 None, s)
           | Inr (sock, response) \<Rightarrow>
               Inr (response,
                    s\<lparr>connections := connections s @
                        [\<lparr>conn_socket = sock, conn_sessionId = [],
                          conn_subprotocols = requested_subprotocols req\<rparr>]\<rparr>)))"
proof (intro conjI)
  show "\<forall>p. \<exists>a b. p = a @ js_trim p @ b
                 \<and> (\<forall>c \<in> set a. js_whitespace c) \<and> (\<forall>c \<in> set b. js_whitespace c)"
    using js_trim_decompose by blast
  show "\<forall>t \<in> set (requested_subprotocols req).
         t \<noteq> [] \<and> \<not> js_whitespace (hd t) \<and> \<not> js_whitespace (last t) \<and> CHR '','' \<notin> set t"
    using requested_subprotocols_token by blast
  show "upgrade req = Some ''websocket'' \<longrightarrow>
        handler up req s =
          (case up req (case requested_subprotocols req of [] \<Rightarrow> None | p # ps \<Rightarrow> Some p) of
             Inl e \<Rightarrow> Inr (Response 500 None, s)
           | Inr (sock, response) \<Rightarrow>
               Inr (response,
                    s\<lparr>connections := connections s @
                        [\<lparr>conn_socket = sock, conn_sessionId = [],
                          conn_subprotocols = requested_subprotocols req\<rparr>]\<rparr>))"
    using handler_upgrade by blast
qed (simp_all add: js_join_split js_split_no_sep requested_subprotocols_eq)

theorem requested_subprotocols_parse_witness:
  "upgrade \<lparr>upgrade = Some ''websocket'', sec_websocket_protocol = Some '' chatv1 , v2,,''\<rparr>
     = Some ''websocket''
   \<and> requested_subprotocols
        \<lparr>upgrade = Some ''websocket'', sec_websocket_protocol = Some '' chatv1 , v2,,''\<rparr>
     = [''chatv1'', ''v2'']
   \<and> handler accept_upgrade
        \<lparr>upgrade = Some ''websocket'', sec_websocket_protocol = Some '' chatv1 , v2,,''\<rparr> initial
     = Inr (Response 101 (Some ''chatv1''),
            initial\<lparr>connections :=
              [\<lparr>conn_socket = \<lparr>readyState = CONNECTING, outbox = [], closeCalls = []\<rparr>,
                conn_sessionId = [], conn_subprotocols = [''chatv1'', ''v2'']\<rparr>]\<rparr>)"
proof -
  let ?r = "\<lparr>upgrade = Some ''websocket'', sec_websocket_protocol = Some '' chatv1 , v2,,''\<rparr>"
  have h: "upgrade ?r = Some ''websocket''" by simp
  have e: "requested_subprotocols ?r = [''chatv1'', ''v2'']"
    by (simp add: requested_subprotocols_def js_trim_def js_whitespace_def)
  from requested_subprotocols_parse [of ?r accept_upgrade initial] h e
  show ?thesis by (simp add: accept_upgrade_def initial_def)
qed

end
